theory Spec2Isabelle
  imports Main "HOL-Library.Word"
begin

section \<open>The image and its pixel accessor\<close>

text \<open>
  \<^verbatim>\<open>png2svg.py\<close> opens an image, converts it to RGBA and reads \<^verbatim>\<open>w, h = img.size\<close> and
  \<^verbatim>\<open>px = img.load()\<close>. An RGBA pixel is a tuple of four bytes (r, g, b, a). The image
  is a record of its size and of the pixel data; the accessor \<^verbatim>\<open>px[x, y]\<close> raises
  \<^verbatim>\<open>IndexError\<close> outside the grid, which is a branch of the model. Opening the input
  and writing the output file are outside the model: the model starts at the loaded
  image and ends at the text handed to the file.
\<close>

type_synonym rgb = "8 word \<times> 8 word \<times> 8 word"
type_synonym rgba = "8 word \<times> 8 word \<times> 8 word \<times> 8 word"

record image =
  width :: nat
  height :: nat
  data :: "nat \<Rightarrow> nat \<Rightarrow> rgba"

datatype error = IndexError

definition px :: "image \<Rightarrow> nat \<Rightarrow> nat \<Rightarrow> error + rgba" where
  "px img x y =
     (if x < width img \<and> y < height img then Inr (data img x y) else Inl IndexError)"

section \<open>Formatting\<close>

text \<open>
  \<^verbatim>\<open>f"#{r:02x}{g:02x}{b:02x}"\<close>: each byte as two lowercase hexadecimal digits.
  \<^verbatim>\<open>f"{x0}"\<close>: a non-negative integer in decimal, without leading zeros.
\<close>

definition hex_digit :: "nat \<Rightarrow> char" where
  "hex_digit n = ''0123456789abcdef'' ! n"

definition fmt_02x :: "8 word \<Rightarrow> string" where
  "fmt_02x v = [hex_digit (unat v div 16), hex_digit (unat v mod 16)]"

definition color_key :: "8 word \<Rightarrow> 8 word \<Rightarrow> 8 word \<Rightarrow> string" where
  "color_key r g b = ''#'' @ fmt_02x r @ fmt_02x g @ fmt_02x b"

definition dec_digit :: "nat \<Rightarrow> char" where
  "dec_digit n = ''0123456789'' ! n"

function str_nat :: "nat \<Rightarrow> string" where
  "str_nat n = (if n < 10 then [dec_digit n] else str_nat (n div 10) @ [dec_digit (n mod 10)])"
  by pat_completeness auto
termination
  by (relation "measure id") auto

section \<open>The layer mapping\<close>

text \<open>
  \<^verbatim>\<open>layers\<close> is a dict from the colour key to the list of its rectangles
  \<^verbatim>\<open>(x, y, width, height)\<close>. A Python dict iterates in insertion order and the writer
  depends on that order, so the dict is an association list with distinct keys, new
  keys added at the end. \<^verbatim>\<open>layers.setdefault(color, []).append(rect)\<close> appends to the
  list of an existing key and otherwise inserts the key with the one-element list.
\<close>

type_synonym rect = "nat \<times> nat \<times> nat \<times> nat"
type_synonym layers = "(string \<times> rect list) list"

fun setdefault_append :: "layers \<Rightarrow> string \<Rightarrow> rect \<Rightarrow> layers" where
  "setdefault_append [] color rc = [(color, [rc])]"
| "setdefault_append ((k, rects) # rest) color rc =
     (if k = color then (k, rects @ [rc]) # rest
      else (k, rects) # setdefault_append rest color rc)"

section \<open>Run extraction\<close>

text \<open>
  The inner loop (lines 23 to 27) advances \<^verbatim>\<open>x\<close> while the pixel is not transparent and
  has the colour of the run's first pixel; its value is the \<^verbatim>\<open>x\<close> at which it stops.
\<close>

function extend_run :: "image \<Rightarrow> nat \<Rightarrow> rgb \<Rightarrow> nat \<Rightarrow> error + nat" where
  "extend_run img y c x =
     (if x < width img then
        (case px img x y of
           Inl e \<Rightarrow> Inl e
         | Inr (r2, g2, b2, a2) \<Rightarrow>
             if a2 = 0 \<or> (r2, g2, b2) \<noteq> c then Inr x
             else extend_run img y c (x + 1))
      else Inr x)"
  by pat_completeness auto
termination
  by (relation "measure (\<lambda>(img, y, c, x). width img - x)") auto

lemma extend_run_ge: "extend_run img y c x = Inr x' \<Longrightarrow> x \<le> x'"
proof (induction img y c x rule: extend_run.induct)
  case (1 img y c x)
  show ?case
  proof (cases "x < width img")
    case False
    with "1.prems" show ?thesis by simp
  next
    case True
    show ?thesis
    proof (cases "px img x y")
      case (Inl e)
      with True "1.prems" show ?thesis by simp
    next
      case (Inr p)
      obtain r2 g2 b2 a2 where p: "p = (r2, g2, b2, a2)" by (cases p) auto
      show ?thesis
      proof (cases "a2 = 0 \<or> (r2, g2, b2) \<noteq> c")
        case stop: True
        with True Inr p "1.prems" show ?thesis by auto
      next
        case go: False
        with True Inr p "1.prems" have "extend_run img y c (x + 1) = Inr x'" by auto
        with "1.IH" [OF True Inr] p go have "x + 1 \<le> x'" by auto
        then show ?thesis by simp
      qed
    qed
  qed
qed

lemma extend_run_gt:
  assumes "x < width img" and "px img x y = Inr (r, g, b, a)" and "a \<noteq> 0"
    and "extend_run img y (r, g, b) x = Inr x'"
  shows "x < x'"
proof -
  from assms have "extend_run img y (r, g, b) (x + 1) = Inr x'" by simp
  then have "x + 1 \<le> x'" by (rule extend_run_ge)
  then show ?thesis by simp
qed

text \<open>
  The scan of one row (lines 15 to 29): a transparent pixel is skipped; otherwise the
  run starting at \<^verbatim>\<open>x0 = x\<close> is extended and stored under its colour key, and the scan goes
  on where the run stopped. The loop ends because a run is never empty.
\<close>

function scan_row :: "image \<Rightarrow> nat \<Rightarrow> nat \<Rightarrow> layers \<Rightarrow> error + layers" where
  "scan_row img y x layers =
     (if x < width img then
        (case px img x y of
           Inl e \<Rightarrow> Inl e
         | Inr (r, g, b, a) \<Rightarrow>
             if a = 0 then scan_row img y (x + 1) layers
             else
               (let color = color_key r g b; x0 = x in
                case extend_run img y (r, g, b) x of
                  Inl e \<Rightarrow> Inl e
                | Inr x' \<Rightarrow>
                    (let run_w = x' - x0 in
                     scan_row img y x' (setdefault_append layers color (x0, y, run_w, 1)))))
      else Inr layers)"
  by pat_completeness auto
termination
proof (relation "measure (\<lambda>(img, y, x, layers). width img - x)", goal_cases)
  case 1
  show ?case by simp
next
  case 2
  then show ?case by simp
next
  case (3 img y x layers p r pa g pb b a color x0 x' run_w)
  from 3 have "px img x y = Inr (r, g, b, a)" by simp
  with 3 have "x < x'" using extend_run_gt [of x img y r g b a x'] by simp
  with 3 show ?case by simp
qed

text \<open>The loop over the rows (line 13), \<^verbatim>\<open>for y in range(h)\<close>, starting each row at x = 0.\<close>

fun scan_rows :: "image \<Rightarrow> nat list \<Rightarrow> layers \<Rightarrow> error + layers" where
  "scan_rows img [] layers = Inr layers"
| "scan_rows img (y # ys) layers =
     (case scan_row img y 0 layers of
        Inl e \<Rightarrow> Inl e
      | Inr layers' \<Rightarrow> scan_rows img ys layers')"

definition extract_runs :: "image \<Rightarrow> error + layers" where
  "extract_runs img = scan_rows img [0..<height img] []"

section \<open>The document writer\<close>

text \<open>
  Lines 32 to 39: the root element with the view box and the rendering hint, then one
  group per key of \<^verbatim>\<open>layers\<close> in the dict's iteration order, each with one
  \<^verbatim>\<open>rect\<close> element per rectangle in list order, then the closing tag. The model
  returns the concatenation of the strings written.
\<close>

definition rect_line :: "rect \<Rightarrow> string" where
  \<open>rect_line rc =
     (case rc of (x0, y0, rw, rh) \<Rightarrow>
        ''    <rect x="'' @ str_nat x0 @ ''" y="'' @ str_nat y0 @
        ''" width="'' @ str_nat rw @ ''" height="'' @ str_nat rh @ ''"/>\<newline>'')\<close>

definition group_text :: "string \<times> rect list \<Rightarrow> string" where
  \<open>group_text g =
     (case g of (color, rects) \<Rightarrow>
        ''  <g fill="'' @ color @ ''">\<newline>'' @ concat (map rect_line rects) @ ''  </g>\<newline>'')\<close>

definition write_svg :: "nat \<Rightarrow> nat \<Rightarrow> layers \<Rightarrow> string" where
  \<open>write_svg w h layers =
     ''<svg xmlns="http://www.w3.org/2000/svg" viewBox="0 0 '' @ str_nat w @ '' '' @ str_nat h @
     ''" shape-rendering="crispEdges">\<newline>'' @
     concat (map group_text layers) @
     ''</svg>\<newline>''\<close>

definition png2svg :: "image \<Rightarrow> error + string" where
  "png2svg img =
     (case extract_runs img of
        Inl e \<Rightarrow> Inl e
      | Inr layers \<Rightarrow> Inr (write_svg (width img) (height img) layers))"

section \<open>Vocabulary of the properties\<close>

text \<open>
  The components of a pixel, the colour key of the pixel at a position, and what it
  means for the columns from \<open>x\<close> up to \<open>x'\<close> (exclusive) of row \<open>y\<close> to be a run that
  starts at \<open>x\<close>: it is not empty, it stays inside the row, every pixel of it is
  non-transparent with the colour of the first, and it stops at the width of the image
  or at a pixel that is transparent or of another colour.
\<close>

definition alpha :: "rgba \<Rightarrow> 8 word" where
  "alpha p = (case p of (r, g, b, a) \<Rightarrow> a)"

definition rgb_of :: "rgba \<Rightarrow> rgb" where
  "rgb_of p = (case p of (r, g, b, a) \<Rightarrow> (r, g, b))"

definition key_at :: "image \<Rightarrow> nat \<Rightarrow> nat \<Rightarrow> string" where
  "key_at img x y = (case data img x y of (r, g, b, a) \<Rightarrow> color_key r g b)"

definition is_run :: "image \<Rightarrow> nat \<Rightarrow> nat \<Rightarrow> nat \<Rightarrow> bool" where
  "is_run img y x x' \<longleftrightarrow>
     x < x' \<and> x' \<le> width img \<and>
     (\<forall>i \<in> {x..<x'}.
        alpha (data img i y) \<noteq> 0 \<and> rgb_of (data img i y) = rgb_of (data img x y)) \<and>
     (x' = width img \<or> alpha (data img x' y) = 0 \<or>
      rgb_of (data img x' y) \<noteq> rgb_of (data img x y))"

text \<open>
  The rectangles in the order the writer emits them, each with the fill of its group;
  the pixels a rectangle covers; the non-transparent pixels of the grid; how many emitted
  rectangles cover a position; the positions the row-major scan has passed when it
  stands at column \<open>x\<close> of row \<open>y\<close>; the row-major order of rectangles by their start;
  and the invariants of the scan built from them.
\<close>

definition emitted :: "layers \<Rightarrow> (string \<times> rect) list" where
  "emitted L = concat (map (\<lambda>(k, rects). map (Pair k) rects) L)"

fun covers :: "rect \<Rightarrow> nat \<Rightarrow> nat \<Rightarrow> bool" where
  "covers (x0, y0, rw, rh) x y \<longleftrightarrow> x0 \<le> x \<and> x < x0 + rw \<and> y0 \<le> y \<and> y < y0 + rh"

definition nontransparent :: "image \<Rightarrow> nat \<Rightarrow> nat \<Rightarrow> bool" where
  "nontransparent img x y \<longleftrightarrow> x < width img \<and> y < height img \<and> alpha (data img x y) \<noteq> 0"

definition cover_count :: "layers \<Rightarrow> nat \<Rightarrow> nat \<Rightarrow> nat" where
  "cover_count L x y = length (filter (\<lambda>(k, rc). covers rc x y) (emitted L))"

definition left_edge :: "image \<Rightarrow> nat \<Rightarrow> nat \<Rightarrow> bool" where
  "left_edge img x y \<longleftrightarrow>
     x = 0 \<or> alpha (data img (x - 1) y) = 0 \<or>
     rgb_of (data img (x - 1) y) \<noteq> rgb_of (data img x y)"

definition good_run :: "image \<Rightarrow> string \<times> rect \<Rightarrow> bool" where
  "good_run img e =
     (case e of (k, x0, y0, rw, rh) \<Rightarrow>
        rh = 1 \<and> y0 < height img \<and> x0 < width img \<and> alpha (data img x0 y0) \<noteq> 0 \<and>
        k = key_at img x0 y0 \<and> is_run img y0 x0 (x0 + rw) \<and> left_edge img x0 y0)"

definition frontier :: "image \<Rightarrow> nat \<Rightarrow> nat \<Rightarrow> bool" where
  "frontier img y x \<longleftrightarrow>
     x = 0 \<or> width img \<le> x \<or> alpha (data img (x - 1) y) = 0 \<or> alpha (data img x y) = 0 \<or>
     rgb_of (data img (x - 1) y) \<noteq> rgb_of (data img x y)"

definition runs_inv :: "image \<Rightarrow> nat \<Rightarrow> nat \<Rightarrow> layers \<Rightarrow> bool" where
  "runs_inv img y x L \<longleftrightarrow> frontier img y x \<and> (\<forall>e \<in> set (emitted L). good_run img e)"

definition scanned :: "nat \<Rightarrow> nat \<Rightarrow> nat \<Rightarrow> nat \<Rightarrow> bool" where
  "scanned y x cx cy \<longleftrightarrow> cy < y \<or> (cy = y \<and> cx < x)"

definition cover_inv :: "image \<Rightarrow> nat \<Rightarrow> nat \<Rightarrow> layers \<Rightarrow> bool" where
  "cover_inv img y x L \<longleftrightarrow>
     (\<forall>cx cy. cover_count L cx cy =
        (if nontransparent img cx cy \<and> scanned y x cx cy then 1 else 0))"

fun scan_before :: "rect \<Rightarrow> rect \<Rightarrow> bool" where
  "scan_before (x1, y1, w1, h1) (x2, y2, w2, h2) \<longleftrightarrow> y1 < y2 \<or> (y1 = y2 \<and> x1 < x2)"

fun rect_scanned :: "nat \<Rightarrow> nat \<Rightarrow> rect \<Rightarrow> bool" where
  "rect_scanned y x (x0, y0, rw, rh) \<longleftrightarrow> scanned y x x0 y0"

definition ordered_layers :: "layers \<Rightarrow> bool" where
  "ordered_layers L \<longleftrightarrow>
     distinct (map fst L) \<and>
     (\<forall>g \<in> set L. snd g \<noteq> [] \<and> sorted_wrt scan_before (snd g)) \<and>
     sorted_wrt scan_before (map (\<lambda>g. hd (snd g)) L)"

definition order_inv :: "nat \<Rightarrow> nat \<Rightarrow> layers \<Rightarrow> bool" where
  "order_inv y x L \<longleftrightarrow>
     ordered_layers L \<and> (\<forall>e \<in> set (emitted L). rect_scanned y x (snd e))"

text \<open>
  The pixel at \<open>(x, y)\<close> is the first pixel of the key \<open>k\<close>: it is non-transparent with
  that key and no non-transparent pixel with that key comes before it in the row-major
  scan.
\<close>

definition first_pixel :: "image \<Rightarrow> string \<Rightarrow> nat \<Rightarrow> nat \<Rightarrow> bool" where
  "first_pixel img k x y \<longleftrightarrow>
     nontransparent img x y \<and> key_at img x y = k \<and>
     (\<forall>cy \<in> {..<height img}. \<forall>cx \<in> {..<width img}.
        nontransparent img cx cy \<and> key_at img cx cy = k \<longrightarrow> \<not> scanned y x cx cy)"

text \<open>
  The image of the worked example: three columns and one row, the pixels opaque red,
  opaque red, opaque blue.
\<close>

definition img_rrb :: image where
  "img_rrb = \<lparr>width = 3, height = 1,
     data = (\<lambda>x y. if x < 2 then (255, 0, 0, 255) else (0, 0, 255, 255))\<rparr>"

text \<open>
  A second example, four columns and two rows, with transparent pixels and with
  non-transparent pixels of one colour and different alpha; and the layers the extractor
  returns for it.
\<close>

definition img_mix :: image where
  "img_mix = \<lparr>width = 4, height = 2,
     data = (\<lambda>x y.
       if y = 0 then
         (if x = 0 then (255, 0, 0, 255) else if x = 1 then (255, 0, 0, 128)
          else if x = 2 then (0, 0, 0, 0) else (0, 0, 255, 255))
       else
         (if x = 0 then (9, 9, 9, 0) else if x < 3 then (0, 0, 255, 255)
          else (255, 0, 0, 7)))\<rparr>"

definition layers_mix :: layers where
  "layers_mix =
     [(''#ff0000'', [(0, 0, 2, 1), (3, 1, 1, 1)]), (''#0000ff'', [(3, 0, 1, 1), (1, 1, 2, 1)])]"

text \<open>
  Two images are alike when they have the same size and, at every position of the grid,
  the same colour and the same answer to whether alpha is zero. The examples: a fully
  transparent image of twelve columns and three rows; the second example with every
  non-zero alpha replaced by 255; and the second example with other pixel data outside
  its grid.
\<close>

definition alike :: "image \<Rightarrow> image \<Rightarrow> bool" where
  "alike a b \<longleftrightarrow>
     width a = width b \<and> height a = height b \<and>
     (\<forall>y \<in> {..<height a}. \<forall>x \<in> {..<width a}.
        rgb_of (data a x y) = rgb_of (data b x y) \<and>
        (alpha (data a x y) = 0 \<longleftrightarrow> alpha (data b x y) = 0))"

definition img_clear :: image where
  "img_clear = \<lparr>width = 12, height = 3, data = (\<lambda>x y. (17, 34, 51, 0))\<rparr>"


definition img_mix_padded :: image where
  "img_mix_padded = \<lparr>width = 4, height = 2,
     data = (\<lambda>x y. if x < 4 \<and> y < 2 then data img_mix x y else (1, 2, 3, 4))\<rparr>"

text \<open>
  Reading a decimal numeral back: the value of a digit character and of a string of
  digits. Whether a string occurs in another as a contiguous part. The predicate of a
  grid all of whose pixels have alpha 0, and the documents of two of the examples.
\<close>

definition digit_val :: "char \<Rightarrow> nat" where
  "digit_val c = of_char c - 48"

definition dec_value :: "string \<Rightarrow> nat" where
  "dec_value s = foldl (\<lambda>acc c. 10 * acc + digit_val c) 0 s"

fun is_prefix_of :: "string \<Rightarrow> string \<Rightarrow> bool" where
  "is_prefix_of [] ys = True"
| "is_prefix_of (x # xs) [] = False"
| "is_prefix_of (x # xs) (y # ys) = (x = y \<and> is_prefix_of xs ys)"

fun occurs_in :: "string \<Rightarrow> string \<Rightarrow> bool" where
  "occurs_in xs [] = is_prefix_of xs []"
| "occurs_in xs (y # ys) = (is_prefix_of xs (y # ys) \<or> occurs_in xs ys)"

definition doc_clear :: string where
  \<open>doc_clear =
     ''<svg xmlns="http://www.w3.org/2000/svg" viewBox="0 0 12 3" shape-rendering="crispEdges">\<newline>'' @
     ''</svg>\<newline>''\<close>

definition all_transparent :: "image \<Rightarrow> bool" where
  "all_transparent img \<longleftrightarrow>
     (\<forall>y \<in> {..<height img}. \<forall>x \<in> {..<width img}. alpha (data img x y) = 0)"

definition doc_mix :: string where
  \<open>doc_mix =
     ''<svg xmlns="http://www.w3.org/2000/svg" viewBox="0 0 4 2" shape-rendering="crispEdges">\<newline>'' @
     ''  <g fill="#ff0000">\<newline>'' @
     ''    <rect x="0" y="0" width="2" height="1"/>\<newline>'' @
     ''    <rect x="3" y="1" width="1" height="1"/>\<newline>'' @
     ''  </g>\<newline>'' @
     ''  <g fill="#0000ff">\<newline>'' @
     ''    <rect x="3" y="0" width="1" height="1"/>\<newline>'' @
     ''    <rect x="1" y="1" width="2" height="1"/>\<newline>'' @
     ''  </g>\<newline>'' @
     ''</svg>\<newline>''\<close>

section \<open>The loops as invariant rules\<close>

declare extend_run.simps [simp del] scan_row.simps [simp del] str_nat.simps [simp del]

lemma px_inside: "x < width img \<Longrightarrow> y < height img \<Longrightarrow> px img x y = Inr (data img x y)"
  by (simp add: px_def)

lemma extend_run_stop: "\<not> x < width img \<Longrightarrow> extend_run img y c x = Inr x"
  by (simp add: extend_run.simps)

lemma extend_run_step:
  "x < width img \<Longrightarrow> y < height img \<Longrightarrow>
   extend_run img y c x =
     (if alpha (data img x y) = 0 \<or> rgb_of (data img x y) \<noteq> c then Inr x
      else extend_run img y c (x + 1))"
  by (subst extend_run.simps) (simp add: px_inside alpha_def rgb_of_def split: prod.splits)

lemma extend_run_spec:
  assumes y: "y < height img"
  shows "x \<le> width img \<Longrightarrow> \<exists>x'. extend_run img y c x = Inr x' \<and> x \<le> x' \<and> x' \<le> width img \<and>
     (\<forall>i. x \<le> i \<and> i < x' \<longrightarrow> alpha (data img i y) \<noteq> 0 \<and> rgb_of (data img i y) = c) \<and>
     (x' = width img \<or> alpha (data img x' y) = 0 \<or> rgb_of (data img x' y) \<noteq> c)"
proof (induction "width img - x" arbitrary: x)
  case 0
  then have "extend_run img y c x = Inr x" and "x = width img"
    by (simp_all add: extend_run_stop)
  then show ?case by (intro exI [of _ x]) auto
next
  case (Suc n)
  then have lt: "x < width img" by simp
  show ?case
  proof (cases "alpha (data img x y) = 0 \<or> rgb_of (data img x y) \<noteq> c")
    case True
    with lt y have "extend_run img y c x = Inr x" by (simp add: extend_run_step)
    with True lt show ?thesis by (intro exI [of _ x]) auto
  next
    case False
    from Suc.hyps(2) lt have "n = width img - (x + 1)" and "x + 1 \<le> width img" by simp_all
    from Suc.hyps(1) [OF this] obtain x' where x':
      "extend_run img y c (x + 1) = Inr x'" "x + 1 \<le> x'" "x' \<le> width img"
      "\<forall>i. x + 1 \<le> i \<and> i < x' \<longrightarrow> alpha (data img i y) \<noteq> 0 \<and> rgb_of (data img i y) = c"
      "x' = width img \<or> alpha (data img x' y) = 0 \<or> rgb_of (data img x' y) \<noteq> c"
      by blast
    from False lt y x'(1) have "extend_run img y c x = Inr x'" by (simp add: extend_run_step)
    moreover have "\<forall>i. x \<le> i \<and> i < x' \<longrightarrow> alpha (data img i y) \<noteq> 0 \<and> rgb_of (data img i y) = c"
    proof (intro allI impI)
      fix i assume i: "x \<le> i \<and> i < x'"
      show "alpha (data img i y) \<noteq> 0 \<and> rgb_of (data img i y) = c"
      proof (cases "i = x")
        case True
        with False show ?thesis by simp
      next
        case ne: False
        with i have "x + 1 \<le> i \<and> i < x'" by simp
        with x'(4) show ?thesis by blast
      qed
    qed
    ultimately show ?thesis using x'(2,3,5) by (intro exI [of _ x']) simp
  qed
qed

lemma is_run_lt: "is_run img y x x' \<Longrightarrow> x < x'"
  unfolding is_run_def by blast

lemma is_run_le: "is_run img y x x' \<Longrightarrow> x' \<le> width img"
  unfolding is_run_def by blast

lemma is_run_inside:
  "is_run img y x x' \<Longrightarrow> x \<le> i \<Longrightarrow> i < x' \<Longrightarrow>
   alpha (data img i y) \<noteq> 0 \<and> rgb_of (data img i y) = rgb_of (data img x y)"
  unfolding is_run_def atLeastLessThan_iff Ball_def by blast

lemma is_run_stop:
  "is_run img y x x' \<Longrightarrow>
   x' = width img \<or> alpha (data img x' y) = 0 \<or>
   rgb_of (data img x' y) \<noteq> rgb_of (data img x y)"
  unfolding is_run_def by blast

lemma is_runI:
  assumes "x < x'" and "x' \<le> width img"
    and "\<forall>i. x \<le> i \<and> i < x' \<longrightarrow>
       alpha (data img i y) \<noteq> 0 \<and> rgb_of (data img i y) = rgb_of (data img x y)"
    and "x' = width img \<or> alpha (data img x' y) = 0 \<or>
     rgb_of (data img x' y) \<noteq> rgb_of (data img x y)"
  shows "is_run img y x x'"
  unfolding is_run_def atLeastLessThan_iff Ball_def using assms by blast

lemma extend_run_is_run:
  assumes "x < width img" and "y < height img" and "alpha (data img x y) \<noteq> 0"
  shows "\<exists>x'. extend_run img y (rgb_of (data img x y)) x = Inr x' \<and> is_run img y x x'"
proof -
  from assms(1) have "x \<le> width img" by simp
  from extend_run_spec [OF assms(2) this, of "rgb_of (data img x y)"]
  obtain x' where x': "extend_run img y (rgb_of (data img x y)) x = Inr x'" "x \<le> x'"
    "x' \<le> width img"
    "\<forall>i. x \<le> i \<and> i < x' \<longrightarrow>
       alpha (data img i y) \<noteq> 0 \<and> rgb_of (data img i y) = rgb_of (data img x y)"
    "x' = width img \<or> alpha (data img x' y) = 0 \<or>
     rgb_of (data img x' y) \<noteq> rgb_of (data img x y)"
    by blast
  have "x \<noteq> x'"
  proof
    assume "x = x'"
    with x'(5) assms show False by auto
  qed
  with x'(2) have "x < x'" by simp
  then have "is_run img y x x'" using x'(3,4,5) by (rule is_runI)
  with x'(1) show ?thesis by blast
qed

lemma scan_row_stop: "\<not> x < width img \<Longrightarrow> scan_row img y x L = Inr L"
  by (simp add: scan_row.simps)

lemma scan_row_skip:
  "x < width img \<Longrightarrow> y < height img \<Longrightarrow> alpha (data img x y) = 0 \<Longrightarrow>
   scan_row img y x L = scan_row img y (x + 1) L"
  by (subst scan_row.simps) (simp add: px_inside alpha_def split: prod.splits)

lemma scan_row_run:
  "x < width img \<Longrightarrow> y < height img \<Longrightarrow> alpha (data img x y) \<noteq> 0 \<Longrightarrow>
   extend_run img y (rgb_of (data img x y)) x = Inr x' \<Longrightarrow>
   scan_row img y x L =
     scan_row img y x' (setdefault_append L (key_at img x y) (x, y, x' - x, 1))"
  by (subst scan_row.simps)
    (simp add: px_inside alpha_def rgb_of_def key_at_def split: prod.splits)

lemma scan_row_rule:
  assumes y: "y < height img"
    and skip: "\<And>x L. x < width img \<Longrightarrow> alpha (data img x y) = 0 \<Longrightarrow> P x L \<Longrightarrow> P (x + 1) L"
    and run: "\<And>x x' L. x < width img \<Longrightarrow> alpha (data img x y) \<noteq> 0 \<Longrightarrow> is_run img y x x' \<Longrightarrow>
        P x L \<Longrightarrow> P x' (setdefault_append L (key_at img x y) (x, y, x' - x, 1))"
  shows "x \<le> width img \<Longrightarrow> P x L \<Longrightarrow> \<exists>L'. scan_row img y x L = Inr L' \<and> P (width img) L'"
proof (induction "width img - x" arbitrary: x L rule: less_induct)
  case less
  show ?case
  proof (cases "x < width img")
    case False
    with less.prems have "x = width img" by simp
    moreover from False have "scan_row img y x L = Inr L" by (rule scan_row_stop)
    ultimately show ?thesis using less.prems(2) by simp
  next
    case lt: True
    show ?thesis
    proof (cases "alpha (data img x y) = 0")
      case True
      have step: "scan_row img y x L = scan_row img y (x + 1) L"
        by (rule scan_row_skip [OF lt y True])
      have P1: "P (x + 1) L" by (rule skip [OF lt True less.prems(2)])
      from lt have m: "width img - (x + 1) < width img - x" and b: "x + 1 \<le> width img"
        by simp_all
      from less.hyps [OF m b P1] show ?thesis unfolding step .
    next
      case False
      from extend_run_is_run [OF lt y False] obtain x' where
        x': "extend_run img y (rgb_of (data img x y)) x = Inr x'" and r: "is_run img y x x'"
        by blast
      have step: "scan_row img y x L =
          scan_row img y x' (setdefault_append L (key_at img x y) (x, y, x' - x, 1))"
        by (rule scan_row_run [OF lt y False x'])
      have P1: "P x' (setdefault_append L (key_at img x y) (x, y, x' - x, 1))"
        by (rule run [OF lt False r less.prems(2)])
      from r have "x < x'" and b: "x' \<le> width img" by (rule is_run_lt, rule is_run_le)
      with lt have m: "width img - x' < width img - x" by simp
      from less.hyps [OF m b P1] show ?thesis unfolding step .
    qed
  qed
qed

lemma scan_rows_rule:
  assumes skip: "\<And>x y L. x < width img \<Longrightarrow> y < height img \<Longrightarrow> alpha (data img x y) = 0 \<Longrightarrow>
        I y x L \<Longrightarrow> I y (x + 1) L"
    and run: "\<And>x x' y L. x < width img \<Longrightarrow> y < height img \<Longrightarrow> alpha (data img x y) \<noteq> 0 \<Longrightarrow>
        is_run img y x x' \<Longrightarrow> I y x L \<Longrightarrow>
        I y x' (setdefault_append L (key_at img x y) (x, y, x' - x, 1))"
    and newline: "\<And>y L. y < height img \<Longrightarrow> I y (width img) L \<Longrightarrow> I (y + 1) 0 L"
  shows "y \<le> height img \<Longrightarrow> I y 0 L \<Longrightarrow>
     \<exists>L'. scan_rows img [y..<height img] L = Inr L' \<and> I (height img) 0 L'"
proof (induction "height img - y" arbitrary: y L)
  case 0
  then have "y = height img" by simp
  with "0.prems"(2) show ?case by simp
next
  case (Suc n)
  then have lt: "y < height img" by simp
  have "\<exists>L'. scan_row img y 0 L = Inr L' \<and> I y (width img) L'"
  proof (rule scan_row_rule [where P = "I y", OF lt])
    show "0 \<le> width img" by simp
    show "I y 0 L" by (rule Suc.prems(2))
  next
    fix x L assume "x < width img" "alpha (data img x y) = 0" "I y x L"
    then show "I y (x + 1) L" by (rule skip [OF _ lt])
  next
    fix x x' L
    assume "x < width img" "alpha (data img x y) \<noteq> 0" "is_run img y x x'" "I y x L"
    then show "I y x' (setdefault_append L (key_at img x y) (x, y, x' - x, 1))"
      by (rule run [OF _ lt])
  qed
  then obtain L1 where L1: "scan_row img y 0 L = Inr L1" and I1: "I y (width img) L1"
    by blast
  have I2: "I (y + 1) 0 L1" by (rule newline [OF lt I1])
  from Suc.hyps(2) lt have n: "n = height img - (y + 1)" and b: "y + 1 \<le> height img"
    by simp_all
  from lt have "[y..<height img] = y # [y + 1..<height img]" by (simp add: upt_conv_Cons)
  then have "scan_rows img [y..<height img] L = scan_rows img [y + 1..<height img] L1"
    using L1 by simp
  with Suc.hyps(1) [OF n b I2] show ?case by simp
qed

lemma extract_runs_rule:
  assumes init: "I 0 0 []"
    and skip: "\<And>x y L. x < width img \<Longrightarrow> y < height img \<Longrightarrow> alpha (data img x y) = 0 \<Longrightarrow>
        I y x L \<Longrightarrow> I y (x + 1) L"
    and run: "\<And>x x' y L. x < width img \<Longrightarrow> y < height img \<Longrightarrow> alpha (data img x y) \<noteq> 0 \<Longrightarrow>
        is_run img y x x' \<Longrightarrow> I y x L \<Longrightarrow>
        I y x' (setdefault_append L (key_at img x y) (x, y, x' - x, 1))"
    and newline: "\<And>y L. y < height img \<Longrightarrow> I y (width img) L \<Longrightarrow> I (y + 1) 0 L"
  shows "\<exists>L. extract_runs img = Inr L \<and> I (height img) 0 L"
  unfolding extract_runs_def
proof (rule scan_rows_rule [where I = I and y = 0])
  show "0 \<le> height img" by simp
  show "I 0 0 []" by (rule init)
next
  fix x y L assume "x < width img" "y < height img" "alpha (data img x y) = 0" "I y x L"
  then show "I y (x + 1) L" by (rule skip)
next
  fix x x' y L
  assume "x < width img" "y < height img" "alpha (data img x y) \<noteq> 0" "is_run img y x x'"
    "I y x L"
  then show "I y x' (setdefault_append L (key_at img x y) (x, y, x' - x, 1))" by (rule run)
next
  fix y L assume "y < height img" "I y (width img) L"
  then show "I (y + 1) 0 L" by (rule newline)
qed

section \<open>Invariants of the scan\<close>

lemma emitted_Nil: "emitted [] = []"
  by (simp add: emitted_def)

lemma emitted_Cons: "emitted ((k, rects) # rest) = map (Pair k) rects @ emitted rest"
  by (simp add: emitted_def)

lemma set_emitted_sda:
  "set (emitted (setdefault_append L k v)) = insert (k, v) (set (emitted L))"
  by (induction L k v rule: setdefault_append.induct) (auto simp: emitted_Nil emitted_Cons)

lemma filter_emitted_sda:
  "length (filter P (emitted (setdefault_append L k v))) =
   length (filter P (emitted L)) + (if P (k, v) then 1 else 0)"
  by (induction L k v rule: setdefault_append.induct) (simp_all add: emitted_Nil emitted_Cons)

lemma cover_count_sda:
  "cover_count (setdefault_append L k v) x y = cover_count L x y + (if covers v x y then 1 else 0)"
  unfolding cover_count_def by (simp add: filter_emitted_sda)

lemma cover_count_Nil: "cover_count [] x y = 0"
  by (simp add: cover_count_def emitted_Nil)

lemma frontier_after_run:
  assumes "is_run img y x x'"
  shows "frontier img y x'"
proof -
  from assms have lt: "x < x'" by (rule is_run_lt)
  note u = is_run_inside [OF assms]
  note stop = is_run_stop [OF assms]
  from lt have "x \<le> x' - 1" and "x' - 1 < x'" by simp_all
  then have eq: "rgb_of (data img (x' - 1) y) = rgb_of (data img x y)" using u by blast
  from stop consider "x' = width img" | "alpha (data img x' y) = 0"
    | "rgb_of (data img x' y) \<noteq> rgb_of (data img x y)" by blast
  then show ?thesis
  proof cases
    case 1
    then show ?thesis unfolding frontier_def by simp
  next
    case 2
    then show ?thesis unfolding frontier_def by simp
  next
    case 3
    with eq have "rgb_of (data img (x' - 1) y) \<noteq> rgb_of (data img x' y)" by simp
    then show ?thesis unfolding frontier_def by simp
  qed
qed

lemma good_run_new:
  assumes "x < width img" "y < height img" "alpha (data img x y) \<noteq> 0" "is_run img y x x'"
    "frontier img y x"
  shows "good_run img (key_at img x y, x, y, x' - x, 1)"
proof -
  from assms(4) have "x < x'" by (rule is_run_lt)
  then have "x + (x' - x) = x'" by simp
  moreover from assms(1,3,5) have "left_edge img x y" by (auto simp: frontier_def left_edge_def)
  ultimately show ?thesis using assms(1-4) by (simp add: good_run_def)
qed

lemma extract_runs_good:
  "\<exists>L. extract_runs img = Inr L \<and> (\<forall>e \<in> set (emitted L). good_run img e)"
proof -
  have "\<exists>L. extract_runs img = Inr L \<and> runs_inv img (height img) 0 L"
  proof (rule extract_runs_rule [where I = "runs_inv img"])
    show "runs_inv img 0 0 []" by (simp add: runs_inv_def frontier_def emitted_Nil)
  next
    fix x y L
    assume "x < width img" "y < height img" "alpha (data img x y) = 0" "runs_inv img y x L"
    then show "runs_inv img y (x + 1) L" by (simp add: runs_inv_def frontier_def)
  next
    fix x x' y L
    assume a: "x < width img" "y < height img" "alpha (data img x y) \<noteq> 0" "is_run img y x x'"
      and inv: "runs_inv img y x L"
    from inv have f: "frontier img y x" and g: "\<forall>e \<in> set (emitted L). good_run img e"
      by (simp_all add: runs_inv_def)
    have "good_run img (key_at img x y, x, y, x' - x, 1)" by (rule good_run_new [OF a f])
    with g have "\<forall>e \<in> set (emitted (setdefault_append L (key_at img x y) (x, y, x' - x, 1))).
        good_run img e"
      by (simp add: set_emitted_sda)
    moreover have "frontier img y x'" by (rule frontier_after_run [OF a(4)])
    ultimately show "runs_inv img y x' (setdefault_append L (key_at img x y) (x, y, x' - x, 1))"
      by (simp add: runs_inv_def)
  next
    fix y L
    assume "y < height img" "runs_inv img y (width img) L"
    then show "runs_inv img (y + 1) 0 L" by (simp add: runs_inv_def frontier_def)
  qed
  then show ?thesis by (auto simp: runs_inv_def)
qed

lemma covers_run: "x < x' \<Longrightarrow> covers (x, y, x' - x, 1) cx cy \<longleftrightarrow> x \<le> cx \<and> cx < x' \<and> cy = y"
  by auto

lemma cover_step:
  assumes a: "x < width img" "y < height img" "is_run img y x x'"
    and old: "cover_count L cx cy = (if nontransparent img cx cy \<and> scanned y x cx cy then 1 else 0)"
  shows "cover_count (setdefault_append L k (x, y, x' - x, 1)) cx cy =
     (if nontransparent img cx cy \<and> scanned y x' cx cy then 1 else 0)"
proof -
  from a(3) have lt: "x < x'" by (rule is_run_lt)
  from a(3) have le: "x' \<le> width img" by (rule is_run_le)
  show ?thesis
  proof (cases "x \<le> cx \<and> cx < x' \<and> cy = y")
    case True
    then have c: "covers (x, y, x' - x, 1) cx cy" using covers_run [OF lt, of y cx cy] by blast
    from True have "alpha (data img cx y) \<noteq> 0" using is_run_inside [OF a(3), of cx] by simp
    with True le a(2) have nt: "nontransparent img cx cy" by (simp add: nontransparent_def)
    from True have s': "scanned y x' cx cy" and s: "\<not> scanned y x cx cy"
      by (simp_all add: scanned_def)
    from old s have "cover_count L cx cy = 0" by simp
    with c nt s' show ?thesis by (simp add: cover_count_sda)
  next
    case False
    then have c: "\<not> covers (x, y, x' - x, 1) cx cy" using covers_run [OF lt, of y cx cy] by blast
    from False lt have "scanned y x' cx cy \<longleftrightarrow> scanned y x cx cy"
      by (auto simp: scanned_def)
    with old c show ?thesis by (simp add: cover_count_sda)
  qed
qed

lemma extract_runs_cover:
  "\<exists>L. extract_runs img = Inr L \<and>
     (\<forall>cx cy. cover_count L cx cy = (if nontransparent img cx cy then 1 else 0))"
proof -
  have "\<exists>L. extract_runs img = Inr L \<and> cover_inv img (height img) 0 L"
  proof (rule extract_runs_rule [where I = "cover_inv img"])
    show "cover_inv img 0 0 []" by (simp add: cover_inv_def cover_count_Nil scanned_def)
  next
    fix x y L
    assume a: "x < width img" "y < height img" "alpha (data img x y) = 0"
      and inv: "cover_inv img y x L"
    show "cover_inv img y (x + 1) L"
      unfolding cover_inv_def
    proof (intro allI)
      fix cx cy
      from a(3) have "nontransparent img cx cy \<and> scanned y (x + 1) cx cy \<longleftrightarrow>
          nontransparent img cx cy \<and> scanned y x cx cy"
        by (auto simp: nontransparent_def scanned_def less_Suc_eq)
      with inv show "cover_count L cx cy =
          (if nontransparent img cx cy \<and> scanned y (x + 1) cx cy then 1 else 0)"
        by (simp add: cover_inv_def)
    qed
  next
    fix x x' y L
    assume a: "x < width img" "y < height img" "alpha (data img x y) \<noteq> 0" "is_run img y x x'"
      and inv: "cover_inv img y x L"
    show "cover_inv img y x' (setdefault_append L (key_at img x y) (x, y, x' - x, 1))"
      unfolding cover_inv_def
    proof (intro allI)
      fix cx cy
      from inv have "cover_count L cx cy =
          (if nontransparent img cx cy \<and> scanned y x cx cy then 1 else 0)"
        by (simp add: cover_inv_def)
      then show "cover_count (setdefault_append L (key_at img x y) (x, y, x' - x, 1)) cx cy =
          (if nontransparent img cx cy \<and> scanned y x' cx cy then 1 else 0)"
        by (rule cover_step [OF a(1,2,4)])
    qed
  next
    fix y L
    assume y: "y < height img" and inv: "cover_inv img y (width img) L"
    show "cover_inv img (y + 1) 0 L"
      unfolding cover_inv_def
    proof (intro allI)
      fix cx cy
      have "nontransparent img cx cy \<and> scanned (y + 1) 0 cx cy \<longleftrightarrow>
          nontransparent img cx cy \<and> scanned y (width img) cx cy"
        by (auto simp: nontransparent_def scanned_def)
      with inv show "cover_count L cx cy =
          (if nontransparent img cx cy \<and> scanned (y + 1) 0 cx cy then 1 else 0)"
        by (simp add: cover_inv_def)
    qed
  qed
  then obtain L where L: "extract_runs img = Inr L" and inv: "cover_inv img (height img) 0 L"
    by blast
  have "cover_count L cx cy = (if nontransparent img cx cy then 1 else 0)" for cx cy
  proof -
    have "nontransparent img cx cy \<and> scanned (height img) 0 cx cy \<longleftrightarrow> nontransparent img cx cy"
      by (auto simp: nontransparent_def scanned_def)
    with inv show ?thesis by (simp add: cover_inv_def)
  qed
  with L show ?thesis by blast
qed

lemma ordered_layers_Nil: "ordered_layers []"
  by (simp add: ordered_layers_def)

lemma ordered_layers_Cons:
  "ordered_layers ((k, rects) # rest) \<longleftrightarrow>
     k \<notin> fst ` set rest \<and> rects \<noteq> [] \<and> sorted_wrt scan_before rects \<and>
     (\<forall>g \<in> set rest. scan_before (hd rects) (hd (snd g))) \<and> ordered_layers rest"
  by (auto simp: ordered_layers_def)

lemma keys_sda: "fst ` set (setdefault_append L k v) = insert k (fst ` set L)"
  by (induction L k v rule: setdefault_append.induct) auto

lemma heads_sda:
  assumes "\<forall>g \<in> set L. snd g \<noteq> []" and "\<forall>g \<in> set L. P (hd (snd g))" and "P v"
  shows "\<forall>g \<in> set (setdefault_append L k v). P (hd (snd g))"
  using assms by (induction L k v rule: setdefault_append.induct) auto

lemma ordered_layers_nonempty: "ordered_layers L \<Longrightarrow> \<forall>g \<in> set L. snd g \<noteq> []"
  by (simp add: ordered_layers_def)

lemma sda_ordered:
  assumes "ordered_layers L" and "\<forall>e \<in> set (emitted L). scan_before (snd e) v"
  shows "ordered_layers (setdefault_append L k v)"
  using assms
proof (induction L k v rule: setdefault_append.induct)
  case (1 color rc)
  show ?case by (simp add: ordered_layers_Cons ordered_layers_Nil)
next
  case (2 k rects rest color rc)
  from "2.prems"(1) have o: "k \<notin> fst ` set rest" "rects \<noteq> []" "sorted_wrt scan_before rects"
    "\<forall>g \<in> set rest. scan_before (hd rects) (hd (snd g))" "ordered_layers rest"
    by (simp_all add: ordered_layers_Cons)
  have b1: "\<forall>r \<in> set rects. scan_before r rc"
  proof
    fix r assume "r \<in> set rects"
    then have "(k, r) \<in> set (emitted ((k, rects) # rest))" by (simp add: emitted_Cons)
    with "2.prems"(2) have "scan_before (snd (k, r)) rc" by blast
    then show "scan_before r rc" by simp
  qed
  from "2.prems"(2) have b2: "\<forall>e \<in> set (emitted rest). scan_before (snd e) rc"
    by (simp add: emitted_Cons)
  show ?case
  proof (cases "k = color")
    case True
    from o(3) b1 have "sorted_wrt scan_before (rects @ [rc])" by (simp add: sorted_wrt_append)
    moreover from o(2) have "hd (rects @ [rc]) = hd rects" by simp
    ultimately show ?thesis using True o by (simp add: ordered_layers_Cons)
  next
    case False
    have IH: "ordered_layers (setdefault_append rest color rc)"
      by (rule "2.IH" [OF False o(5) b2])
    from o(2) b1 have "scan_before (hd rects) rc" by simp
    with o(4) ordered_layers_nonempty [OF o(5)]
    have "\<forall>g \<in> set (setdefault_append rest color rc). scan_before (hd rects) (hd (snd g))"
      by (intro heads_sda) simp_all
    moreover from o(1) False have "k \<notin> fst ` set (setdefault_append rest color rc)"
      by (simp add: keys_sda)
    ultimately show ?thesis using False o(2,3) IH by (simp add: ordered_layers_Cons)
  qed
qed

lemma rect_scanned_before: "rect_scanned y x r \<longleftrightarrow> scan_before r (x, y, rw, rh)"
  by (cases r) (auto simp: scanned_def)

lemma rect_scanned_mono:
  "rect_scanned y x r \<Longrightarrow> y < y' \<or> (y = y' \<and> x \<le> x') \<Longrightarrow> rect_scanned y' x' r"
  by (cases r) (auto simp: scanned_def)

lemma extract_runs_ordered: "\<exists>L. extract_runs img = Inr L \<and> ordered_layers L"
proof -
  have "\<exists>L. extract_runs img = Inr L \<and> order_inv (height img) 0 L"
  proof (rule extract_runs_rule [where I = order_inv])
    show "order_inv 0 0 []" by (simp add: order_inv_def ordered_layers_Nil emitted_Nil)
  next
    fix x y L
    assume "x < width img" "y < height img" "alpha (data img x y) = 0" and inv: "order_inv y x L"
    from inv have "\<forall>e \<in> set (emitted L). rect_scanned y (x + 1) (snd e)"
      unfolding order_inv_def using rect_scanned_mono [of y x _ y "x + 1"] by simp
    with inv show "order_inv y (x + 1) L" by (simp add: order_inv_def)
  next
    fix x x' y L
    assume a: "x < width img" "y < height img" "alpha (data img x y) \<noteq> 0" "is_run img y x x'"
      and inv: "order_inv y x L"
    from a(4) have lt: "x < x'" by (rule is_run_lt)
    let ?v = "(x, y, x' - x, 1)"
    from inv have o: "ordered_layers L" and s: "\<forall>e \<in> set (emitted L). rect_scanned y x (snd e)"
      by (simp_all add: order_inv_def)
    from s have "\<forall>e \<in> set (emitted L). scan_before (snd e) ?v"
      using rect_scanned_before [of y x _ "x' - x" 1] by simp
    with o have o': "ordered_layers (setdefault_append L (key_at img x y) ?v)"
      by (rule sda_ordered)
    from s lt have "\<forall>e \<in> set (emitted L). rect_scanned y x' (snd e)"
      using rect_scanned_mono [of y x _ y x'] by simp
    moreover from lt have "rect_scanned y x' ?v" by (simp add: scanned_def)
    ultimately have "\<forall>e \<in> set (emitted (setdefault_append L (key_at img x y) ?v)).
        rect_scanned y x' (snd e)"
      by (simp add: set_emitted_sda)
    with o' show "order_inv y x' (setdefault_append L (key_at img x y) ?v)"
      by (simp add: order_inv_def)
  next
    fix y L
    assume "y < height img" and inv: "order_inv y (width img) L"
    from inv have "\<forall>e \<in> set (emitted L). rect_scanned (y + 1) 0 (snd e)"
      unfolding order_inv_def using rect_scanned_mono [of y "width img" _ "y + 1" 0] by simp
    with inv show "order_inv (y + 1) 0 L" by (simp add: order_inv_def)
  qed
  then show ?thesis by (auto simp: order_inv_def)
qed

section \<open>The colour key determines the colour\<close>

lemma distinct_hex: "distinct ''0123456789abcdef''"
  by simp

lemma hex_digit_inj: "m < 16 \<Longrightarrow> n < 16 \<Longrightarrow> hex_digit m = hex_digit n \<Longrightarrow> m = n"
  unfolding hex_digit_def using nth_eq_iff_index_eq [OF distinct_hex, of m n] by simp

lemma fmt_02x_inj: "fmt_02x v = fmt_02x w \<Longrightarrow> v = w"
proof -
  assume eq: "fmt_02x v = fmt_02x w"
  have bv: "unat v < 256" and bw: "unat w < 256"
    using unsigned_less [of v, where 'a = nat] unsigned_less [of w, where 'a = nat] by simp_all
  then have dv: "unat v div 16 < 16" and dw: "unat w div 16 < 16" by simp_all
  have mv: "unat v mod 16 < 16" and mw: "unat w mod 16 < 16" by simp_all
  from eq have "hex_digit (unat v div 16) = hex_digit (unat w div 16)"
    and "hex_digit (unat v mod 16) = hex_digit (unat w mod 16)"
    by (simp_all add: fmt_02x_def)
  then have "unat v div 16 = unat w div 16" and "unat v mod 16 = unat w mod 16"
    using hex_digit_inj dv dw mv mw by blast+
  then have "unat v = unat w" by (metis div_mult_mod_eq)
  then show "v = w" by (simp add: word_unat_eq_iff)
qed

lemma length_fmt_02x: "length (fmt_02x v) = 2"
  by (simp add: fmt_02x_def)

lemma color_key_inj:
  assumes "color_key r g b = color_key r' g' b'"
  shows "r = r' \<and> g = g' \<and> b = b'"
proof -
  from assms have "fmt_02x r @ (fmt_02x g @ fmt_02x b) = fmt_02x r' @ (fmt_02x g' @ fmt_02x b')"
    by (simp add: color_key_def)
  then have 1: "fmt_02x r = fmt_02x r'" and "fmt_02x g @ fmt_02x b = fmt_02x g' @ fmt_02x b'"
    by (simp_all add: length_fmt_02x)
  then have "fmt_02x g = fmt_02x g'" and "fmt_02x b = fmt_02x b'"
    by (simp_all add: length_fmt_02x)
  with 1 show ?thesis by (simp add: fmt_02x_inj)
qed

section \<open>What every extraction establishes\<close>

lemma extract_mix: "extract_runs img_mix = Inr layers_mix"
  by code_simp

lemma emitted_mix:
  "emitted layers_mix =
     [(''#ff0000'', 0, 0, 2, 1), (''#ff0000'', 3, 1, 1, 1),
      (''#0000ff'', 3, 0, 1, 1), (''#0000ff'', 1, 1, 2, 1)]"
  by (simp add: layers_mix_def emitted_def)

lemma extract_runs_facts:
  obtains L where "extract_runs img = Inr L"
    and "\<forall>e \<in> set (emitted L). good_run img e"
    and "\<forall>cx cy. cover_count L cx cy = (if nontransparent img cx cy then 1 else 0)"
    and "ordered_layers L"
proof -
  from extract_runs_good [of img] obtain L where L: "extract_runs img = Inr L"
    and g: "\<forall>e \<in> set (emitted L). good_run img e" by blast
  from extract_runs_cover [of img] L
  have c: "\<forall>cx cy. cover_count L cx cy = (if nontransparent img cx cy then 1 else 0)" by simp
  from extract_runs_ordered [of img] L have o: "ordered_layers L" by simp
  from L g c o show ?thesis by (rule that)
qed

lemma png2svg_extract:
  "extract_runs img = Inr L \<Longrightarrow> png2svg img = Inr (write_svg (width img) (height img) L)"
  by (simp add: png2svg_def)

lemma good_runD:
  assumes "good_run img (k, x0, y0, rw, rh)"
  shows "rh = 1" "y0 < height img" "x0 < width img" "alpha (data img x0 y0) \<noteq> 0"
    "k = key_at img x0 y0" "is_run img y0 x0 (x0 + rw)" "left_edge img x0 y0"
  using assms by (simp_all add: good_run_def)

lemma key_at_rgb:
  "rgb_of (data img x y) = (r, g, b) \<Longrightarrow> key_at img x y = color_key r g b"
  by (auto simp: key_at_def rgb_of_def split: prod.splits)

lemma key_at_color_key:
  "key_at img x y = color_key r g b \<longleftrightarrow> rgb_of (data img x y) = (r, g, b)"
proof
  assume k: "key_at img x y = color_key r g b"
  obtain r' g' b' where c: "rgb_of (data img x y) = (r', g', b')"
    by (cases "rgb_of (data img x y)") auto
  from key_at_rgb [OF c] k have "color_key r' g' b' = color_key r g b" by simp
  from color_key_inj [OF this] c show "rgb_of (data img x y) = (r, g, b)" by simp
next
  assume "rgb_of (data img x y) = (r, g, b)"
  then show "key_at img x y = color_key r g b" by (rule key_at_rgb)
qed

lemma key_at_cong:
  assumes "rgb_of (data img x y) = rgb_of (data img x' y')"
  shows "key_at img x y = key_at img x' y'"
proof -
  obtain r g b where c: "rgb_of (data img x' y') = (r, g, b)"
    by (cases "rgb_of (data img x' y')") auto
  with assms have "rgb_of (data img x y) = (r, g, b)" by simp
  from key_at_rgb [OF this] key_at_rgb [OF c] show ?thesis by simp
qed

lemma covered_pixel:
  assumes g: "good_run img (k, x0, y0, rw, rh)" and c: "covers (x0, y0, rw, rh) cx cy"
  shows "nontransparent img cx cy" and "rgb_of (data img cx cy) = rgb_of (data img x0 y0)"
    and "key_at img cx cy = k" and "cy = y0" and "x0 \<le> cx"
proof -
  note d = good_runD [OF g]
  from c d(1) have cy: "cy = y0" and lo: "x0 \<le> cx" and hi: "cx < x0 + rw" by simp_all
  from is_run_inside [OF d(6) lo hi]
  have a: "alpha (data img cx y0) \<noteq> 0" and
    e: "rgb_of (data img cx y0) = rgb_of (data img x0 y0)" by blast+
  from hi is_run_le [OF d(6)] have "cx < width img" by simp
  with a d(2) cy show "nontransparent img cx cy" by (simp add: nontransparent_def)
  from e cy show "rgb_of (data img cx cy) = rgb_of (data img x0 y0)" by simp
  then have "key_at img cx cy = key_at img x0 y0" by (rule key_at_cong)
  with d(5) show "key_at img cx cy = k" by simp
  show "cy = y0" by (rule cy)
  show "x0 \<le> cx" by (rule lo)
qed

lemma cover_count_pos:
  assumes "cover_count L cx cy = 1"
  shows "\<exists>k rc. (k, rc) \<in> set (emitted L) \<and> covers rc cx cy"
proof -
  from assms have "filter (\<lambda>(k, rc). covers rc cx cy) (emitted L) \<noteq> []"
    by (auto simp: cover_count_def)
  then have "set (filter (\<lambda>(k, rc). covers rc cx cy) (emitted L)) \<noteq> {}"
    by (simp only: set_empty not_False_eq_True)
  then have "\<exists>e. e \<in> set (filter (\<lambda>(k, rc). covers rc cx cy) (emitted L))"
    by (simp only: ex_in_conv not_False_eq_True)
  then obtain e where "e \<in> set (filter (\<lambda>(k, rc). covers rc cx cy) (emitted L))" ..
  then have m: "e \<in> set (emitted L)" and p: "(\<lambda>(k, rc). covers rc cx cy) e"
    by (simp_all only: set_filter mem_Collect_eq)
  obtain k rc where e: "e = (k, rc)" by (cases e) auto
  from p have "covers rc cx cy" unfolding e prod.case .
  with m e show ?thesis by blast
qed

lemma emitted_member:
  "(k, rects) \<in> set L \<Longrightarrow> rc \<in> set rects \<Longrightarrow> (k, rc) \<in> set (emitted L)"
  by (force simp: emitted_def)

lemma emitted_group:
  "(k, rc) \<in> set (emitted L) \<Longrightarrow> \<exists>rects. (k, rects) \<in> set L \<and> rc \<in> set rects"
  by (auto simp: emitted_def)

lemma ordered_layersD:
  assumes "ordered_layers L"
  shows "distinct (map fst L)"
    and "sorted_wrt scan_before (map (\<lambda>g. hd (snd g)) L)"
    and "(k, rects) \<in> set L \<Longrightarrow> rects \<noteq> []"
    and "(k, rects) \<in> set L \<Longrightarrow> sorted_wrt scan_before rects"
  using assms by (auto simp: ordered_layers_def)

lemma group_has_run:
  assumes g: "\<forall>e \<in> set (emitted L). good_run img e" and o: "ordered_layers L"
    and m: "(k, rects) \<in> set L"
  shows "rects \<noteq> []" and "\<forall>rc \<in> set rects. good_run img (k, rc)"
    and "\<exists>x y. nontransparent img x y \<and> key_at img x y = k"
proof -
  show ne: "rects \<noteq> []" by (rule ordered_layersD(3) [OF o m])
  show all: "\<forall>rc \<in> set rects. good_run img (k, rc)"
    using g emitted_member [OF m] by blast
  from ne have "hd rects \<in> set rects" by simp
  with all have gr: "good_run img (k, hd rects)" by blast
  obtain x0 y0 rw rh where h: "hd rects = (x0, y0, rw, rh)" by (cases "hd rects") auto
  note d = good_runD [OF gr [unfolded h]]
  from d(2,3,4) have "nontransparent img x0 y0" by (simp add: nontransparent_def)
  with d(5) show "\<exists>x y. nontransparent img x y \<and> key_at img x y = k" by blast
qed

lemma sorted_wrt_hd:
  "sorted_wrt P xs \<Longrightarrow> x \<in> set xs \<Longrightarrow> x = hd xs \<or> P (hd xs) x"
  by (cases xs) auto

lemma first_pixel_of_group:
  assumes g: "\<forall>e \<in> set (emitted L). good_run img e"
    and c: "\<forall>cx cy. cover_count L cx cy = (if nontransparent img cx cy then 1 else 0)"
    and o: "ordered_layers L"
    and m: "(k, rects) \<in> set L" and h: "hd rects = (x0, y0, rw, rh)"
  shows "first_pixel img k x0 y0"
proof -
  note r = group_has_run [OF g o m]
  from r(1) have "hd rects \<in> set rects" by simp
  with r(2) h have gr: "good_run img (k, x0, y0, rw, rh)" by simp
  note d = good_runD [OF gr]
  from d(2,3,4) have nt: "nontransparent img x0 y0" by (simp add: nontransparent_def)
  have later: "\<not> scanned y0 x0 cx cy"
    if p: "nontransparent img cx cy" and kc: "key_at img cx cy = k" for cx cy
  proof -
    from c p have "cover_count L cx cy = 1" by simp
    from cover_count_pos [OF this] obtain k' rc where e: "(k', rc) \<in> set (emitted L)"
      and cv: "covers rc cx cy" by blast
    obtain x1 y1 rw1 rh1 where rc: "rc = (x1, y1, rw1, rh1)" by (cases rc) auto
    from g e rc have gr': "good_run img (k', x1, y1, rw1, rh1)" by blast
    from cv rc have cv': "covers (x1, y1, rw1, rh1) cx cy" by simp
    note q = covered_pixel [OF gr' cv']
    from q(3) kc have "k' = k" by simp
    with e obtain rects' where m': "(k, rects') \<in> set L" and i: "rc \<in> set rects'"
      using emitted_group by blast
    from eq_key_imp_eq_value [OF ordered_layersD(1) [OF o] m m'] i
    have "rc \<in> set rects" by simp
    from sorted_wrt_hd [OF ordered_layersD(4) [OF o m] this]
    have "rc = hd rects \<or> scan_before (hd rects) rc" .
    with h rc have "(x1 = x0 \<and> y1 = y0) \<or> y0 < y1 \<or> (y0 = y1 \<and> x0 < x1)" by auto
    with q(4,5) show ?thesis by (auto simp: scanned_def)
  qed
  from nt d(5) later show ?thesis by (simp add: first_pixel_def)
qed

lemma write_svg_text:
  \<open>write_svg w h L =
     ''<svg xmlns="http://www.w3.org/2000/svg" viewBox="0 0 '' @ str_nat w @ '' '' @ str_nat h @
     ''" shape-rendering="crispEdges">\<newline>'' @
     concat (map (\<lambda>(k, rects).
       ''  <g fill="'' @ k @ ''">\<newline>'' @
       concat (map (\<lambda>(x0, y0, rw, rh).
         ''    <rect x="'' @ str_nat x0 @ ''" y="'' @ str_nat y0 @
         ''" width="'' @ str_nat rw @ ''" height="'' @ str_nat rh @ ''"/>\<newline>'') rects) @
       ''  </g>\<newline>'') L) @
     ''</svg>\<newline>''\<close>
proof -
  have r: \<open>rect_line = (\<lambda>(x0, y0, rw, rh).
         ''    <rect x="'' @ str_nat x0 @ ''" y="'' @ str_nat y0 @
         ''" width="'' @ str_nat rw @ ''" height="'' @ str_nat rh @ ''"/>\<newline>'')\<close>
    by (rule ext) (simp add: rect_line_def)
  have g: \<open>group_text = (\<lambda>(k, rects).
       ''  <g fill="'' @ k @ ''">\<newline>'' @ concat (map rect_line rects) @ ''  </g>\<newline>'')\<close>
    by (rule ext) (simp add: group_text_def)
  show ?thesis unfolding write_svg_def g r ..
qed

section \<open>The output depends on the grid only, and on alpha only through zero\<close>

lemma alikeD:
  assumes "alike a b"
  shows "width a = width b" "height a = height b"
    "x < width a \<Longrightarrow> y < height a \<Longrightarrow> rgb_of (data a x y) = rgb_of (data b x y)"
    "x < width a \<Longrightarrow> y < height a \<Longrightarrow> alpha (data a x y) = 0 \<longleftrightarrow> alpha (data b x y) = 0"
  using assms unfolding alike_def by (blast, blast, blast, blast)

lemma extend_run_alike:
  assumes ab: "alike a b" and y: "y < height a"
  shows "extend_run a y c x = extend_run b y c x"
proof (induction "width a - x" arbitrary: x rule: less_induct)
  case less
  note w = alikeD(1) [OF ab] and h = alikeD(2) [OF ab]
  show ?case
  proof (cases "x < width a")
    case False
    then have "extend_run a y c x = Inr x" by (rule extend_run_stop)
    moreover from False w have "extend_run b y c x = Inr x" by (simp add: extend_run_stop)
    ultimately show ?thesis by simp
  next
    case True
    from True have m: "width a - (x + 1) < width a - x" by simp
    note IH = less.hyps [OF m]
    have sa: "extend_run a y c x =
        (if alpha (data a x y) = 0 \<or> rgb_of (data a x y) \<noteq> c then Inr x
         else extend_run a y c (x + 1))"
      by (rule extend_run_step [OF True y])
    from True y w h have sb: "extend_run b y c x =
        (if alpha (data b x y) = 0 \<or> rgb_of (data b x y) \<noteq> c then Inr x
         else extend_run b y c (x + 1))"
      by (simp add: extend_run_step)
    from alikeD(3,4) [OF ab True y] IH show ?thesis unfolding sa sb by simp
  qed
qed

lemma key_at_alike:
  assumes "rgb_of (data a x y) = rgb_of (data b x y)"
  shows "key_at a x y = key_at b x y"
proof -
  obtain r g bb where c: "rgb_of (data b x y) = (r, g, bb)"
    by (cases "rgb_of (data b x y)") auto
  with assms have "rgb_of (data a x y) = (r, g, bb)" by simp
  from key_at_rgb [OF this] key_at_rgb [OF c] show ?thesis by simp
qed

lemma scan_row_alike:
  assumes ab: "alike a b" and y: "y < height a"
  shows "scan_row a y x L = scan_row b y x L"
proof (induction "width a - x" arbitrary: x L rule: less_induct)
  case less
  note w = alikeD(1) [OF ab] and h = alikeD(2) [OF ab]
  from y h have yb: "y < height b" by simp
  show ?case
  proof (cases "x < width a")
    case False
    then have "scan_row a y x L = Inr L" by (rule scan_row_stop)
    moreover from False w have "scan_row b y x L = Inr L" by (simp add: scan_row_stop)
    ultimately show ?thesis by simp
  next
    case True
    from True w have xb: "x < width b" by simp
    note rgb = alikeD(3) [OF ab True y] and al = alikeD(4) [OF ab True y]
    show ?thesis
    proof (cases "alpha (data a x y) = 0")
      case z: True
      with al have zb: "alpha (data b x y) = 0" by simp
      from True have m: "width a - (x + 1) < width a - x" by simp
      have "scan_row a y x L = scan_row a y (x + 1) L" by (rule scan_row_skip [OF True y z])
      also have "\<dots> = scan_row b y (x + 1) L" by (rule less.hyps [OF m])
      also have "\<dots> = scan_row b y x L" by (rule scan_row_skip [OF xb yb zb, symmetric])
      finally show ?thesis .
    next
      case nz: False
      with al have nzb: "alpha (data b x y) \<noteq> 0" by simp
      from extend_run_is_run [OF True y nz] obtain x' where
        ea: "extend_run a y (rgb_of (data a x y)) x = Inr x'" and r: "is_run a y x x'" by blast
      from ea have eb: "extend_run b y (rgb_of (data b x y)) x = Inr x'"
        unfolding extend_run_alike [OF ab y] rgb .
      from is_run_lt [OF r] True have m: "width a - x' < width a - x" by simp
      have k: "key_at a x y = key_at b x y" by (rule key_at_alike [OF rgb])
      have "scan_row a y x L =
          scan_row a y x' (setdefault_append L (key_at a x y) (x, y, x' - x, 1))"
        by (rule scan_row_run [OF True y nz ea])
      also have "\<dots> = scan_row b y x' (setdefault_append L (key_at a x y) (x, y, x' - x, 1))"
        by (rule less.hyps [OF m])
      also have "\<dots> = scan_row b y x L"
        unfolding k by (rule scan_row_run [OF xb yb nzb eb, symmetric])
      finally show ?thesis .
    qed
  qed
qed

lemma scan_rows_alike:
  assumes ab: "alike a b"
  shows "\<forall>y \<in> set ys. y < height a \<Longrightarrow> scan_rows a ys L = scan_rows b ys L"
proof (induction ys arbitrary: L)
  case Nil
  show ?case by simp
next
  case (Cons y ys)
  from Cons.prems have y: "y < height a" and r: "\<forall>y \<in> set ys. y < height a" by simp_all
  from scan_row_alike [OF ab y] Cons.IH [OF r] show ?case by (simp split: sum.splits)
qed

lemma png2svg_alike:
  assumes ab: "alike a b"
  shows "png2svg a = png2svg b"
proof -
  have "\<forall>y \<in> set [0..<height a]. y < height a" by simp
  from scan_rows_alike [OF ab this, of "[]"] alikeD(2) [OF ab]
  have "extract_runs a = extract_runs b" by (simp add: extract_runs_def)
  with alikeD(1,2) [OF ab] show ?thesis by (simp add: png2svg_def split: sum.splits)
qed

lemma png2svg_total: "\<exists>doc. png2svg img = Inr doc"
proof -
  obtain L where L: "extract_runs img = Inr L" by (rule extract_runs_facts)
  from png2svg_extract [OF L] show ?thesis by blast
qed

lemma extract_runs_transparent:
  assumes t: "\<forall>y < height img. \<forall>x < width img. alpha (data img x y) = 0"
  shows "extract_runs img = Inr []"
proof -
  have "\<exists>L. extract_runs img = Inr L \<and> L = []"
  proof (rule extract_runs_rule [where I = "\<lambda>y x L. L = []"])
    show "[] = ([] :: layers)" by simp
  next
    fix x y and L :: layers
    assume "L = []"
    then show "L = []" .
  next
    fix x x' y and L :: layers
    assume "x < width img" "y < height img" "alpha (data img x y) \<noteq> 0"
    with t have False by blast
    then show "setdefault_append L (key_at img x y) (x, y, x' - x, 1) = []" ..
  next
    fix y and L :: layers
    assume "L = []"
    then show "L = []" .
  qed
  then show ?thesis by simp
qed



section \<open>The decimal printer and the text of the elements\<close>

lemma below_ten: "n < 10 \<Longrightarrow> n \<in> {0, 1, 2, 3, 4, 5, 6, 7, 8, 9 :: nat}"
  by (simp add: insert_iff) arith

lemma digit_val_dec_digit: "n < 10 \<Longrightarrow> digit_val (dec_digit n) = n"
  using below_ten [of n] by (auto simp: digit_val_def dec_digit_def)

lemma dec_digit_in: "n < 10 \<Longrightarrow> dec_digit n \<in> set ''0123456789''"
  unfolding dec_digit_def by (rule nth_mem) simp

lemma dec_digit_zero: "n < 10 \<Longrightarrow> dec_digit n = CHR ''0'' \<Longrightarrow> n = 0"
  using below_ten [of n] by (auto simp: dec_digit_def)

lemma str_nat_small: "n < 10 \<Longrightarrow> str_nat n = [dec_digit n]"
  by (subst str_nat.simps) simp

lemma str_nat_large:
  "\<not> n < 10 \<Longrightarrow> str_nat n = str_nat (n div 10) @ [dec_digit (n mod 10)]"
  by (subst str_nat.simps) simp

lemma dec_value_snoc: "dec_value (s @ [c]) = 10 * dec_value s + digit_val c"
  by (simp add: dec_value_def)

lemma str_nat_nonempty: "str_nat n \<noteq> []"
  by (cases "n < 10") (simp_all add: str_nat_small str_nat_large)

lemma str_nat_digits: "set (str_nat n) \<subseteq> set ''0123456789''"
proof (induction n rule: less_induct)
  case (less n)
  show ?case
  proof (cases "n < 10")
    case True
    from dec_digit_in [OF True] show ?thesis unfolding str_nat_small [OF True] by simp
  next
    case False
    then have "n div 10 < n" by simp
    have "dec_digit (n mod 10) \<in> set ''0123456789''" by (rule dec_digit_in) simp
    with less.IH [OF \<open>n div 10 < n\<close>] show ?thesis
      unfolding str_nat_large [OF False] by simp
  qed
qed

lemma dec_value_str_nat: "dec_value (str_nat n) = n"
proof (induction n rule: less_induct)
  case (less n)
  show ?case
  proof (cases "n < 10")
    case True
    then show ?thesis by (simp add: str_nat_small dec_value_def digit_val_dec_digit)
  next
    case False
    then have "n div 10 < n" by simp
    from less.IH [OF this] False show ?thesis
      by (simp add: str_nat_large dec_value_snoc digit_val_dec_digit)
  qed
qed

lemma str_nat_no_leading_zero: "n \<noteq> 0 \<Longrightarrow> hd (str_nat n) \<noteq> CHR ''0''"
proof (induction n rule: less_induct)
  case (less n)
  show ?case
  proof (cases "n < 10")
    case True
    with less.prems dec_digit_zero [OF True] show ?thesis by (auto simp: str_nat_small)
  next
    case False
    then have "n div 10 < n" and "n div 10 \<noteq> 0" by simp_all
    from less.IH [OF this] False show ?thesis
      by (simp add: str_nat_large str_nat_nonempty)
  qed
qed

lemma png2svg_clear: "png2svg img_clear = Inr doc_clear"
  by code_simp

lemma no_width_height: "\<not> occurs_in ''width='' doc_clear \<and> \<not> occurs_in ''height='' doc_clear"
  by code_simp

lemma all_transparent_clear: "all_transparent img_clear"
  by (simp add: all_transparent_def img_clear_def alpha_def)

lemma write_svg_mix: "write_svg (width img_mix) (height img_mix) layers_mix = doc_mix"
  by code_simp

lemma group_text_first:
  \<open>rects \<noteq> [] \<Longrightarrow> hd rects = (x0, y0, rw, rh) \<Longrightarrow>
   group_text (k, rects) =
     ''  <g fill="'' @ k @ ''">\<newline>'' @
     ''    <rect x="'' @ str_nat x0 @ ''" y="'' @ str_nat y0 @
     ''" width="'' @ str_nat rw @ ''" height="'' @ str_nat rh @ ''"/>\<newline>'' @
     concat (map rect_line (tl rects)) @ ''  </g>\<newline>''\<close>
  by (cases rects) (simp_all add: group_text_def rect_line_def)

lemma write_svg_groups:
  \<open>write_svg w h L =
     ''<svg xmlns="http://www.w3.org/2000/svg" viewBox="0 0 '' @ str_nat w @ '' '' @ str_nat h @
     ''" shape-rendering="crispEdges">\<newline>'' @
     concat (map group_text L) @ ''</svg>\<newline>''\<close>
  by (simp add: write_svg_def)

section \<open>The claims\<close>

text \<open>
  C4. On the image of three columns and one row whose pixels are opaque red, opaque
  red, opaque blue, the extractor returns exactly two layers in this order: the key
  \<open>#ff0000\<close> with the single rectangle x = 0, y = 0, width = 2, height = 1, and the key
  \<open>#0000ff\<close> with the single rectangle x = 2, y = 0, width = 1, height = 1; the document
  written is the root element, these two groups with one \<open>rect\<close> element each, and the
  closing tag.
\<close>

theorem red_red_blue:
  \<open>extract_runs img_rrb = Inr [(''#ff0000'', [(0, 0, 2, 1)]), (''#0000ff'', [(2, 0, 1, 1)])] \<and>
   png2svg img_rrb = Inr
     (''<svg xmlns="http://www.w3.org/2000/svg" viewBox="0 0 3 1" shape-rendering="crispEdges">\<newline>'' @
      ''  <g fill="#ff0000">\<newline>'' @
      ''    <rect x="0" y="0" width="2" height="1"/>\<newline>'' @
      ''  </g>\<newline>'' @
      ''  <g fill="#0000ff">\<newline>'' @
      ''    <rect x="2" y="0" width="1" height="1"/>\<newline>'' @
      ''  </g>\<newline>'' @
      ''</svg>\<newline>'')\<close>
  by code_simp

text \<open>
  C2. For every image the extraction succeeds, the document is written from its layers,
  and every rectangle emitted has height exactly 1 and width at least 1.
\<close>

theorem rect_height_width:
  "\<exists>L. extract_runs img = Inr L \<and>
     png2svg img = Inr (write_svg (width img) (height img) L) \<and>
     (\<forall>(k, x0, y0, rw, rh) \<in> set (emitted L). rh = 1 \<and> 1 \<le> rw)"
proof -
  obtain L where L: "extract_runs img = Inr L"
    and g: "\<forall>e \<in> set (emitted L). good_run img e"
    by (rule extract_runs_facts)
  have "\<forall>(k, x0, y0, rw, rh) \<in> set (emitted L). rh = 1 \<and> 1 \<le> rw"
  proof (clarify)
    fix k x0 y0 rw rh
    assume "(k, x0, y0, rw, rh) \<in> set (emitted L)"
    with g have gr: "good_run img (k, x0, y0, rw, rh)" by blast
    then have "rh = 1" and "is_run img y0 x0 (x0 + rw)" by (simp_all add: good_run_def)
    from is_run_lt [OF this(2)] this(1) show "rh = 1 \<and> 1 \<le> rw" by simp
  qed
  with L png2svg_extract [OF L] show ?thesis by blast
qed

theorem rect_height_width_witness:
  "extract_runs img_mix = Inr layers_mix \<and>
   (''#0000ff'', 1, 1, 2, 1) \<in> set (emitted layers_mix) \<and> (1::nat) = 1 \<and> (1::nat) \<le> 2"
proof -
  from rect_height_width [of img_mix] obtain L where "extract_runs img_mix = Inr L"
    and a: "\<forall>(k, x0, y0, rw, rh) \<in> set (emitted L). rh = 1 \<and> 1 \<le> rw" by blast
  with extract_mix have L: "L = layers_mix" by simp
  have m: "(''#0000ff'', 1, 1, 2, 1) \<in> set (emitted layers_mix)" by (simp add: emitted_mix)
  note F = a [unfolded L, rule_format, OF m, unfolded prod.case]
  from F have "(1::nat) = 1 \<and> (1::nat) \<le> 2" by blast
  with extract_mix m show ?thesis by blast
qed

text \<open>
  C3. Runs are maximal. Every emitted rectangle \<open>(x0, y0, rw, rh)\<close> under the key \<open>k\<close> lies in
  one row of the grid (\<open>rh = 1\<close>, \<open>y0\<close> below the height, \<open>x0 + rw\<close> at most the width); \<open>k\<close> is
  the colour key of the pixel at \<open>(x0, y0)\<close>; every pixel from \<open>x0\<close> to \<open>x0 + rw - 1\<close> of the
  row is non-transparent with exactly that colour; the run ends at \<open>x0 + rw\<close> because that
  is the width of the image or the pixel there is transparent or of another colour; and
  the run cannot be extended to the left either.
\<close>

theorem runs_maximal:
  "\<exists>L. extract_runs img = Inr L \<and>
     (\<forall>(k, x0, y0, rw, rh) \<in> set (emitted L).
        y0 < height img \<and> rh = 1 \<and> x0 + rw \<le> width img \<and> k = key_at img x0 y0 \<and>
        (\<forall>i \<in> {x0..<x0 + rw}.
           alpha (data img i y0) \<noteq> 0 \<and> rgb_of (data img i y0) = rgb_of (data img x0 y0)) \<and>
        (x0 + rw = width img \<or> alpha (data img (x0 + rw) y0) = 0 \<or>
         rgb_of (data img (x0 + rw) y0) \<noteq> rgb_of (data img x0 y0)) \<and>
        (x0 = 0 \<or> alpha (data img (x0 - 1) y0) = 0 \<or>
         rgb_of (data img (x0 - 1) y0) \<noteq> rgb_of (data img x0 y0)))"
proof -
  obtain L where L: "extract_runs img = Inr L"
    and g: "\<forall>e \<in> set (emitted L). good_run img e"
    by (rule extract_runs_facts)
  have "\<forall>(k, x0, y0, rw, rh) \<in> set (emitted L).
        y0 < height img \<and> rh = 1 \<and> x0 + rw \<le> width img \<and> k = key_at img x0 y0 \<and>
        (\<forall>i \<in> {x0..<x0 + rw}.
           alpha (data img i y0) \<noteq> 0 \<and> rgb_of (data img i y0) = rgb_of (data img x0 y0)) \<and>
        (x0 + rw = width img \<or> alpha (data img (x0 + rw) y0) = 0 \<or>
         rgb_of (data img (x0 + rw) y0) \<noteq> rgb_of (data img x0 y0)) \<and>
        (x0 = 0 \<or> alpha (data img (x0 - 1) y0) = 0 \<or>
         rgb_of (data img (x0 - 1) y0) \<noteq> rgb_of (data img x0 y0))"
  proof (clarify, intro conjI)
    fix k x0 y0 rw rh
    assume "(k, x0, y0, rw, rh) \<in> set (emitted L)"
    with g have gr: "good_run img (k, x0, y0, rw, rh)" by blast
    note d = good_runD [OF gr]
    show "y0 < height img" by (rule d(2))
    show "rh = 1" by (rule d(1))
    show "x0 + rw \<le> width img" by (rule is_run_le [OF d(6)])
    show "k = key_at img x0 y0" by (rule d(5))
    show "\<forall>i \<in> {x0..<x0 + rw}.
        alpha (data img i y0) \<noteq> 0 \<and> rgb_of (data img i y0) = rgb_of (data img x0 y0)"
    proof
      fix i assume "i \<in> {x0..<x0 + rw}"
      then have "x0 \<le> i" and "i < x0 + rw" by simp_all
      then show "alpha (data img i y0) \<noteq> 0 \<and>
          rgb_of (data img i y0) = rgb_of (data img x0 y0)"
        by (rule is_run_inside [OF d(6)])
    qed
    show "x0 + rw = width img \<or> alpha (data img (x0 + rw) y0) = 0 \<or>
         rgb_of (data img (x0 + rw) y0) \<noteq> rgb_of (data img x0 y0)"
      by (rule is_run_stop [OF d(6)])
    show "x0 = 0 \<or> alpha (data img (x0 - 1) y0) = 0 \<or>
         rgb_of (data img (x0 - 1) y0) \<noteq> rgb_of (data img x0 y0)"
      using d(7) by (simp add: left_edge_def)
  qed
  with L show ?thesis by blast
qed

theorem runs_maximal_witness:
  "extract_runs img_mix = Inr layers_mix \<and>
   (''#0000ff'', 1, 1, 2, 1) \<in> set (emitted layers_mix) \<and>
   (1::nat) < height img_mix \<and> 1 + 2 \<le> width img_mix \<and>
   ''#0000ff'' = key_at img_mix 1 1 \<and>
   alpha (data img_mix 2 1) \<noteq> 0 \<and> rgb_of (data img_mix 2 1) = rgb_of (data img_mix 1 1) \<and>
   rgb_of (data img_mix (1 + 2) 1) \<noteq> rgb_of (data img_mix 1 1) \<and>
   alpha (data img_mix (1 - 1) 1) = 0"
proof -
  from runs_maximal [of img_mix] obtain L where "extract_runs img_mix = Inr L"
    and a: "\<forall>(k, x0, y0, rw, rh) \<in> set (emitted L).
        y0 < height img_mix \<and> rh = 1 \<and> x0 + rw \<le> width img_mix \<and> k = key_at img_mix x0 y0 \<and>
        (\<forall>i \<in> {x0..<x0 + rw}.
           alpha (data img_mix i y0) \<noteq> 0 \<and>
           rgb_of (data img_mix i y0) = rgb_of (data img_mix x0 y0)) \<and>
        (x0 + rw = width img_mix \<or> alpha (data img_mix (x0 + rw) y0) = 0 \<or>
         rgb_of (data img_mix (x0 + rw) y0) \<noteq> rgb_of (data img_mix x0 y0)) \<and>
        (x0 = 0 \<or> alpha (data img_mix (x0 - 1) y0) = 0 \<or>
         rgb_of (data img_mix (x0 - 1) y0) \<noteq> rgb_of (data img_mix x0 y0))" by blast
  with extract_mix have L: "L = layers_mix" by simp
  have m: "(''#0000ff'', 1, 1, 2, 1) \<in> set (emitted layers_mix)" by (simp add: emitted_mix)
  note F = a [unfolded L, rule_format, OF m, unfolded prod.case]
  from F have b: "(1::nat) < height img_mix" "1 + 2 \<le> width img_mix"
    "''#0000ff'' = key_at img_mix 1 1"
    by blast+
  from F have "\<forall>i \<in> {1..<1 + 2}. alpha (data img_mix i 1) \<noteq> 0 \<and>
       rgb_of (data img_mix i 1) = rgb_of (data img_mix 1 1)" by blast
  moreover have "(2::nat) \<in> {1..<1 + 2}" by simp
  ultimately have c: "alpha (data img_mix 2 1) \<noteq> 0 \<and>
      rgb_of (data img_mix 2 1) = rgb_of (data img_mix 1 1)" by blast
  have "rgb_of (data img_mix (1 + 2) 1) \<noteq> rgb_of (data img_mix 1 1)"
    and "alpha (data img_mix (1 - 1) 1) = 0"
    by (simp_all add: img_mix_def rgb_of_def alpha_def)
  with extract_mix m b c show ?thesis by blast
qed

text \<open>
  C9. Every emitted rectangle lies within the image: \<open>0 \<le> x\<close>, \<open>x + width \<le> W\<close>,
  \<open>0 \<le> y < H\<close> and \<open>y + height \<le> H\<close>. Coordinates are natural numbers, so the lower bounds
  hold by type; the width \<open>x' - x0\<close> is never truncated, since the inner loop stops at
  an \<open>x'\<close> above \<open>x0\<close>.
\<close>

theorem rects_in_bounds:
  "\<exists>L. extract_runs img = Inr L \<and>
     (\<forall>(k, x0, y0, rw, rh) \<in> set (emitted L).
        0 \<le> x0 \<and> x0 + rw \<le> width img \<and> 0 \<le> y0 \<and> y0 < height img \<and>
        y0 + rh \<le> height img)"
proof -
  obtain L where L: "extract_runs img = Inr L"
    and g: "\<forall>e \<in> set (emitted L). good_run img e"
    by (rule extract_runs_facts)
  have "\<forall>(k, x0, y0, rw, rh) \<in> set (emitted L).
        0 \<le> x0 \<and> x0 + rw \<le> width img \<and> 0 \<le> y0 \<and> y0 < height img \<and>
        y0 + rh \<le> height img"
  proof (clarify)
    fix k x0 y0 rw rh
    assume "(k, x0, y0, rw, rh) \<in> set (emitted L)"
    with g have gr: "good_run img (k, x0, y0, rw, rh)" by blast
    note d = good_runD [OF gr]
    from d(1,2) is_run_le [OF d(6)]
    show "0 \<le> x0 \<and> x0 + rw \<le> width img \<and> 0 \<le> y0 \<and> y0 < height img \<and>
        y0 + rh \<le> height img" by simp
  qed
  with L show ?thesis by blast
qed

theorem rects_in_bounds_witness:
  "extract_runs img_mix = Inr layers_mix \<and>
   (''#ff0000'', 3, 1, 1, 1) \<in> set (emitted layers_mix) \<and>
   (3::nat) + 1 \<le> width img_mix \<and> (1::nat) < height img_mix \<and> (1::nat) + 1 \<le> height img_mix"
proof -
  from rects_in_bounds [of img_mix] obtain L where "extract_runs img_mix = Inr L"
    and a: "\<forall>(k, x0, y0, rw, rh) \<in> set (emitted L).
        0 \<le> x0 \<and> x0 + rw \<le> width img_mix \<and> 0 \<le> y0 \<and> y0 < height img_mix \<and>
        y0 + rh \<le> height img_mix" by blast
  with extract_mix have L: "L = layers_mix" by simp
  have m: "(''#ff0000'', 3, 1, 1, 1) \<in> set (emitted layers_mix)" by (simp add: emitted_mix)
  note F = a [unfolded L, rule_format, OF m, unfolded prod.case]
  from F have "(3::nat) + 1 \<le> width img_mix \<and> (1::nat) < height img_mix \<and>
      (1::nat) + 1 \<le> height img_mix" by blast
  with extract_mix m show ?thesis by blast
qed

text \<open>
  C1. For every image the extraction succeeds, and: every non-transparent pixel of the
  grid is covered by exactly one emitted rectangle (counted in the list of all emitted
  rectangles); a position whose pixel has alpha 0, and any position that is not a
  non-transparent pixel of the grid, is covered by none; and for every colour
  \<open>(r, g, b)\<close> the positions covered by the rectangles emitted under its key are exactly
  the non-transparent pixels of that colour.
\<close>

theorem coverage:
  "\<exists>L. extract_runs img = Inr L \<and>
     (\<forall>cx cy. nontransparent img cx cy \<longrightarrow> cover_count L cx cy = 1) \<and>
     (\<forall>cx cy. alpha (data img cx cy) = 0 \<longrightarrow> cover_count L cx cy = 0) \<and>
     (\<forall>cx cy. \<not> nontransparent img cx cy \<longrightarrow> cover_count L cx cy = 0) \<and>
     (\<forall>r g b.
        {(cx, cy). \<exists>rc. (color_key r g b, rc) \<in> set (emitted L) \<and> covers rc cx cy} =
        {(cx, cy). nontransparent img cx cy \<and> rgb_of (data img cx cy) = (r, g, b)})"
proof -
  obtain L where L: "extract_runs img = Inr L"
    and g: "\<forall>e \<in> set (emitted L). good_run img e"
    and c: "\<forall>cx cy. cover_count L cx cy = (if nontransparent img cx cy then 1 else 0)"
    by (rule extract_runs_facts)
  from c have c1: "\<forall>cx cy. nontransparent img cx cy \<longrightarrow> cover_count L cx cy = 1" by simp
  from c have c0: "\<forall>cx cy. \<not> nontransparent img cx cy \<longrightarrow> cover_count L cx cy = 0" by simp
  then have ca: "\<forall>cx cy. alpha (data img cx cy) = 0 \<longrightarrow> cover_count L cx cy = 0"
    by (simp add: nontransparent_def)
  have per: "{(cx, cy). \<exists>rc. (color_key r g b, rc) \<in> set (emitted L) \<and> covers rc cx cy} =
      {(cx, cy). nontransparent img cx cy \<and> rgb_of (data img cx cy) = (r, g, b)}" for r g b
  proof (intro set_eqI iffI; clarify)
    fix cx cy rc
    assume m: "(color_key r g b, rc) \<in> set (emitted L)" and cv: "covers rc cx cy"
    obtain x0 y0 rw rh where rc: "rc = (x0, y0, rw, rh)" by (cases rc) auto
    from g m rc have gr: "good_run img (color_key r g b, x0, y0, rw, rh)" by blast
    from cv rc have cv': "covers (x0, y0, rw, rh) cx cy" by simp
    from covered_pixel(1,3) [OF gr cv']
    show "nontransparent img cx cy \<and> rgb_of (data img cx cy) = (r, g, b)"
      by (simp add: key_at_color_key)
  next
    fix cx cy
    assume nt: "nontransparent img cx cy" and col: "rgb_of (data img cx cy) = (r, g, b)"
    from c1 nt have "cover_count L cx cy = 1" by blast
    from cover_count_pos [OF this] obtain k rc where m: "(k, rc) \<in> set (emitted L)"
      and cv: "covers rc cx cy" by blast
    obtain x0 y0 rw rh where rc: "rc = (x0, y0, rw, rh)" by (cases rc) auto
    from g m rc have gr: "good_run img (k, x0, y0, rw, rh)" by blast
    from cv rc have cv': "covers (x0, y0, rw, rh) cx cy" by simp
    from covered_pixel(3) [OF gr cv'] key_at_rgb [OF col] have "k = color_key r g b" by simp
    with m cv show "\<exists>rc. (color_key r g b, rc) \<in> set (emitted L) \<and> covers rc cx cy" by blast
  qed
  from L c1 ca c0 per show ?thesis by blast
qed

theorem coverage_witness:
  "extract_runs img_mix = Inr layers_mix \<and>
   nontransparent img_mix 1 0 \<and> cover_count layers_mix 1 0 = 1 \<and>
   alpha (data img_mix 2 0) = 0 \<and> cover_count layers_mix 2 0 = 0 \<and>
   \<not> nontransparent img_mix 5 1 \<and> cover_count layers_mix 5 1 = 0 \<and>
   {(cx, cy). \<exists>rc. (color_key 255 0 0, rc) \<in> set (emitted layers_mix) \<and> covers rc cx cy} =
   {(cx, cy). nontransparent img_mix cx cy \<and> rgb_of (data img_mix cx cy) = (255, 0, 0)}"
proof -
  from coverage [of img_mix] obtain L where "extract_runs img_mix = Inr L"
    and c1: "\<forall>cx cy. nontransparent img_mix cx cy \<longrightarrow> cover_count L cx cy = 1"
    and ca: "\<forall>cx cy. alpha (data img_mix cx cy) = 0 \<longrightarrow> cover_count L cx cy = 0"
    and c0: "\<forall>cx cy. \<not> nontransparent img_mix cx cy \<longrightarrow> cover_count L cx cy = 0"
    and per: "\<forall>r g b.
        {(cx, cy). \<exists>rc. (color_key r g b, rc) \<in> set (emitted L) \<and> covers rc cx cy} =
        {(cx, cy). nontransparent img_mix cx cy \<and> rgb_of (data img_mix cx cy) = (r, g, b)}"
    by blast
  with extract_mix have L: "L = layers_mix" by simp
  have h1: "nontransparent img_mix 1 0" and h2: "alpha (data img_mix 2 0) = 0"
    and h3: "\<not> nontransparent img_mix 5 1"
    by (simp_all add: img_mix_def nontransparent_def alpha_def)
  from c1 h1 L have r1: "cover_count layers_mix 1 0 = 1" by blast
  from ca h2 L have r2: "cover_count layers_mix 2 0 = 0" by blast
  from c0 h3 L have r3: "cover_count layers_mix 5 1 = 0" by blast
  from per L have r4:
    "{(cx, cy). \<exists>rc. (color_key 255 0 0, rc) \<in> set (emitted layers_mix) \<and> covers rc cx cy} =
     {(cx, cy). nontransparent img_mix cx cy \<and> rgb_of (data img_mix cx cy) = (255, 0, 0)}"
    by blast
  from extract_mix h1 r1 h2 r2 h3 r3 r4 show ?thesis by (intro conjI)
qed

text \<open>
  C10. No empty groups. The document is the root element, the texts of the groups of the
  layer mapping in order, and the closing tag. Every key of the mapping has at least one
  rectangle, each of its rectangles is a run of the colour of that key, so a
  non-transparent pixel with that key exists; and the text of its group is the opening
  tag with the key as fill, then the \<open>rect\<close> element of its first rectangle, then the
  elements of the others, then the closing tag.
\<close>

theorem no_empty_groups:
  \<open>\<exists>L. extract_runs img = Inr L \<and>
     png2svg img = Inr
       (''<svg xmlns="http://www.w3.org/2000/svg" viewBox="0 0 '' @ str_nat (width img) @ '' '' @
        str_nat (height img) @ ''" shape-rendering="crispEdges">\<newline>'' @
        concat (map group_text L) @ ''</svg>\<newline>'') \<and>
     (\<forall>(k, rects) \<in> set L.
        rects \<noteq> [] \<and> (\<forall>rc \<in> set rects. good_run img (k, rc)) \<and>
        (\<exists>x y. nontransparent img x y \<and> key_at img x y = k) \<and>
        (case hd rects of (x0, y0, rw, rh) \<Rightarrow>
           group_text (k, rects) =
             ''  <g fill="'' @ k @ ''">\<newline>'' @
             ''    <rect x="'' @ str_nat x0 @ ''" y="'' @ str_nat y0 @
             ''" width="'' @ str_nat rw @ ''" height="'' @ str_nat rh @ ''"/>\<newline>'' @
             concat (map rect_line (tl rects)) @ ''  </g>\<newline>''))\<close>
proof -
  obtain L where L: "extract_runs img = Inr L"
    and g: "\<forall>e \<in> set (emitted L). good_run img e"
    and o: "ordered_layers L"
    by (rule extract_runs_facts)
  have a: \<open>\<forall>(k, rects) \<in> set L.
        rects \<noteq> [] \<and> (\<forall>rc \<in> set rects. good_run img (k, rc)) \<and>
        (\<exists>x y. nontransparent img x y \<and> key_at img x y = k) \<and>
        (case hd rects of (x0, y0, rw, rh) \<Rightarrow>
           group_text (k, rects) =
             ''  <g fill="'' @ k @ ''">\<newline>'' @
             ''    <rect x="'' @ str_nat x0 @ ''" y="'' @ str_nat y0 @
             ''" width="'' @ str_nat rw @ ''" height="'' @ str_nat rh @ ''"/>\<newline>'' @
             concat (map rect_line (tl rects)) @ ''  </g>\<newline>'')\<close>
  proof (clarify, intro conjI)
    fix k rects
    assume m: "(k, rects) \<in> set L"
    note r = group_has_run [OF g o m]
    show "rects \<noteq> []" by (rule r(1))
    show "\<forall>rc \<in> set rects. good_run img (k, rc)" by (rule r(2))
    show "\<exists>x y. nontransparent img x y \<and> key_at img x y = k" by (rule r(3))
    obtain x0 y0 rw rh where h: "hd rects = (x0, y0, rw, rh)" by (cases "hd rects") auto
    from group_text_first [OF r(1) h, of k]
    show \<open>case hd rects of (x0, y0, rw, rh) \<Rightarrow>
           group_text (k, rects) =
             ''  <g fill="'' @ k @ ''">\<newline>'' @
             ''    <rect x="'' @ str_nat x0 @ ''" y="'' @ str_nat y0 @
             ''" width="'' @ str_nat rw @ ''" height="'' @ str_nat rh @ ''"/>\<newline>'' @
             concat (map rect_line (tl rects)) @ ''  </g>\<newline>''\<close>
      unfolding h prod.case .
  qed
  from png2svg_extract [OF L] have p: "png2svg img = Inr (write_svg (width img) (height img) L)" .
  show ?thesis
    by (rule exI [of _ L]) (intro conjI L p [unfolded write_svg_groups] a)
qed

theorem no_empty_groups_witness:
  \<open>extract_runs img_mix = Inr layers_mix \<and>
   png2svg img_mix = Inr doc_mix \<and>
   (''#ff0000'', [(0, 0, 2, 1), (3, 1, 1, 1)]) \<in> set layers_mix \<and>
   [(0, 0, 2, 1), (3, 1, 1, 1)] \<noteq> ([] :: rect list) \<and>
   good_run img_mix (''#ff0000'', 3, 1, 1, 1) \<and>
   (\<exists>x y. nontransparent img_mix x y \<and> key_at img_mix x y = ''#ff0000'') \<and>
   group_text (''#ff0000'', [(0, 0, 2, 1), (3, 1, 1, 1)]) =
     ''  <g fill="#ff0000">\<newline>'' @
     ''    <rect x="0" y="0" width="2" height="1"/>\<newline>'' @
     ''    <rect x="3" y="1" width="1" height="1"/>\<newline>'' @
     ''  </g>\<newline>''\<close>
proof -
  from no_empty_groups [of img_mix] obtain L where "extract_runs img_mix = Inr L"
    and p: \<open>png2svg img_mix = Inr
       (''<svg xmlns="http://www.w3.org/2000/svg" viewBox="0 0 '' @ str_nat (width img_mix) @
        '' '' @ str_nat (height img_mix) @ ''" shape-rendering="crispEdges">\<newline>'' @
        concat (map group_text L) @ ''</svg>\<newline>'')\<close>
    and a: \<open>\<forall>(k, rects) \<in> set L.
        rects \<noteq> [] \<and> (\<forall>rc \<in> set rects. good_run img_mix (k, rc)) \<and>
        (\<exists>x y. nontransparent img_mix x y \<and> key_at img_mix x y = k) \<and>
        (case hd rects of (x0, y0, rw, rh) \<Rightarrow>
           group_text (k, rects) =
             ''  <g fill="'' @ k @ ''">\<newline>'' @
             ''    <rect x="'' @ str_nat x0 @ ''" y="'' @ str_nat y0 @
             ''" width="'' @ str_nat rw @ ''" height="'' @ str_nat rh @ ''"/>\<newline>'' @
             concat (map rect_line (tl rects)) @ ''  </g>\<newline>'')\<close> by blast
  with extract_mix have L: "L = layers_mix" by simp
  from p [unfolded L, folded write_svg_groups] have doc: "png2svg img_mix = Inr doc_mix"
    by (simp only: write_svg_mix)
  have m: "(''#ff0000'', [(0, 0, 2, 1), (3, 1, 1, 1)]) \<in> set layers_mix"
    by (simp add: layers_mix_def)
  note F = a [unfolded L, rule_format, OF m, unfolded prod.case list.sel]
  from F have f1: "[(0, 0, 2, 1), (3, 1, 1, 1)] \<noteq> ([] :: rect list)"
    and f2: "\<forall>rc \<in> set [(0, 0, 2, 1), (3, 1, 1, 1)]. good_run img_mix (''#ff0000'', rc)"
    and f3: "\<exists>x y. nontransparent img_mix x y \<and> key_at img_mix x y = ''#ff0000''"
    and f5: \<open>group_text (''#ff0000'', [(0, 0, 2, 1), (3, 1, 1, 1)]) =
             ''  <g fill="'' @ ''#ff0000'' @ ''">\<newline>'' @
             ''    <rect x="'' @ str_nat 0 @ ''" y="'' @ str_nat 0 @
             ''" width="'' @ str_nat 2 @ ''" height="'' @ str_nat 1 @ ''"/>\<newline>'' @
             concat (map rect_line [(3, 1, 1, 1)]) @ ''  </g>\<newline>''\<close>
    by blast+
  have e: \<open>''  <g fill="'' @ ''#ff0000'' @ ''">\<newline>'' @
             ''    <rect x="'' @ str_nat 0 @ ''" y="'' @ str_nat 0 @
             ''" width="'' @ str_nat 2 @ ''" height="'' @ str_nat 1 @ ''"/>\<newline>'' @
             concat (map rect_line [(3, 1, 1, 1)]) @ ''  </g>\<newline>'' =
     ''  <g fill="#ff0000">\<newline>'' @
     ''    <rect x="0" y="0" width="2" height="1"/>\<newline>'' @
     ''    <rect x="3" y="1" width="1" height="1"/>\<newline>'' @
     ''  </g>\<newline>''\<close>
    by code_simp
  have "(3, 1, 1, 1) \<in> set [(0, 0, 2, 1), (3, 1, 1, 1 :: nat)]" by simp
  with f2 have f4: "good_run img_mix (''#ff0000'', 3, 1, 1, 1)" by blast
  from extract_mix doc m f1 f4 f3 f5 [unfolded e] show ?thesis by (intro conjI)
qed

text \<open>
  C7. Output ordering. The document is the root element, then one group per key in the
  order of the layer mapping, each with one \<open>rect\<close> element per rectangle in list order,
  its \<open>x\<close>, \<open>y\<close>, \<open>width\<close> and \<open>height\<close> printed from the run as they are: every number is
  printed as a non-empty string of decimal digits without a leading zero whose value is
  that number. The keys are distinct; the first rectangle of every group starts at the
  first pixel of its key in the row-major scan, and these first rectangles are strictly
  increasing in row-major order along the mapping, so the groups stand in the order in
  which their keys are first encountered; within a group the rectangles are strictly
  increasing in row-major order.
\<close>

theorem output_order:
  \<open>\<exists>L. extract_runs img = Inr L \<and>
     png2svg img = Inr
       (''<svg xmlns="http://www.w3.org/2000/svg" viewBox="0 0 '' @ str_nat (width img) @ '' '' @
        str_nat (height img) @ ''" shape-rendering="crispEdges">\<newline>'' @
        concat (map (\<lambda>(k, rects).
          ''  <g fill="'' @ k @ ''">\<newline>'' @
          concat (map (\<lambda>(x0, y0, rw, rh).
            ''    <rect x="'' @ str_nat x0 @ ''" y="'' @ str_nat y0 @
            ''" width="'' @ str_nat rw @ ''" height="'' @ str_nat rh @ ''"/>\<newline>'') rects) @
          ''  </g>\<newline>'') L) @
        ''</svg>\<newline>'') \<and>
     (\<forall>n. str_nat n \<noteq> [] \<and> set (str_nat n) \<subseteq> set ''0123456789'' \<and>
        dec_value (str_nat n) = n \<and> (n \<noteq> 0 \<longrightarrow> hd (str_nat n) \<noteq> CHR ''0'')) \<and>
     distinct (map fst L) \<and>
     sorted_wrt scan_before (map (\<lambda>(k, rects). hd rects) L) \<and>
     (\<forall>(k, rects) \<in> set L.
        sorted_wrt scan_before rects \<and>
        (case hd rects of (x0, y0, rw, rh) \<Rightarrow> first_pixel img k x0 y0))\<close>
proof -
  obtain L where L: "extract_runs img = Inr L"
    and g: "\<forall>e \<in> set (emitted L). good_run img e"
    and c: "\<forall>cx cy. cover_count L cx cy = (if nontransparent img cx cy then 1 else 0)"
    and o: "ordered_layers L"
    by (rule extract_runs_facts)
  have d: "distinct (map fst L)" by (rule ordered_layersD(1) [OF o])
  have "(\<lambda>(k, rects). hd rects) = (\<lambda>g :: string \<times> rect list. hd (snd g))"
    by (rule ext) (simp add: case_prod_beta)
  with ordered_layersD(2) [OF o]
  have s: "sorted_wrt scan_before (map (\<lambda>(k, rects). hd rects) L)" by simp
  have e: "\<forall>(k, rects) \<in> set L.
        sorted_wrt scan_before rects \<and>
        (case hd rects of (x0, y0, rw, rh) \<Rightarrow> first_pixel img k x0 y0)"
  proof (clarify, intro conjI)
    fix k rects
    assume m: "(k, rects) \<in> set L"
    show "sorted_wrt scan_before rects" by (rule ordered_layersD(4) [OF o m])
    obtain x0 y0 rw rh where h: "hd rects = (x0, y0, rw, rh)" by (cases "hd rects") auto
    from first_pixel_of_group [OF g c o m h]
    show "case hd rects of (x0, y0, rw, rh) \<Rightarrow> first_pixel img k x0 y0" by (simp add: h)
  qed
  have n: "\<forall>n. str_nat n \<noteq> [] \<and> set (str_nat n) \<subseteq> set ''0123456789'' \<and>
        dec_value (str_nat n) = n \<and> (n \<noteq> 0 \<longrightarrow> hd (str_nat n) \<noteq> CHR ''0'')"
    using str_nat_nonempty str_nat_digits dec_value_str_nat str_nat_no_leading_zero by blast
  from png2svg_extract [OF L] have p: "png2svg img = Inr (write_svg (width img) (height img) L)" .
  show ?thesis
    by (rule exI [of _ L]) (intro conjI L p [unfolded write_svg_text] n d s e)
qed

theorem output_order_witness:
  \<open>extract_runs img_mix = Inr layers_mix \<and>
   png2svg img_mix = Inr
     (''<svg xmlns="http://www.w3.org/2000/svg" viewBox="0 0 4 2" shape-rendering="crispEdges">\<newline>'' @
      ''  <g fill="#ff0000">\<newline>'' @
      ''    <rect x="0" y="0" width="2" height="1"/>\<newline>'' @
      ''    <rect x="3" y="1" width="1" height="1"/>\<newline>'' @
      ''  </g>\<newline>'' @
      ''  <g fill="#0000ff">\<newline>'' @
      ''    <rect x="3" y="0" width="1" height="1"/>\<newline>'' @
      ''    <rect x="1" y="1" width="2" height="1"/>\<newline>'' @
      ''  </g>\<newline>'' @
      ''</svg>\<newline>'') \<and>
   str_nat 1203 = ''1203'' \<and> dec_value (str_nat 1203) = 1203 \<and>
   (''#0000ff'', [(3, 0, 1, 1), (1, 1, 2, 1)]) \<in> set layers_mix \<and>
   distinct (map fst layers_mix) \<and>
   sorted_wrt scan_before (map (\<lambda>(k, rects). hd rects) layers_mix) \<and>
   sorted_wrt scan_before [(3, 0, 1, 1), (1, 1, 2, 1)] \<and>
   first_pixel img_mix ''#0000ff'' 3 0\<close>
proof -
  from output_order [of img_mix] obtain L where "extract_runs img_mix = Inr L"
    and p: \<open>png2svg img_mix = Inr
       (''<svg xmlns="http://www.w3.org/2000/svg" viewBox="0 0 '' @ str_nat (width img_mix) @
        '' '' @ str_nat (height img_mix) @ ''" shape-rendering="crispEdges">\<newline>'' @
        concat (map (\<lambda>(k, rects).
          ''  <g fill="'' @ k @ ''">\<newline>'' @
          concat (map (\<lambda>(x0, y0, rw, rh).
            ''    <rect x="'' @ str_nat x0 @ ''" y="'' @ str_nat y0 @
            ''" width="'' @ str_nat rw @ ''" height="'' @ str_nat rh @ ''"/>\<newline>'') rects) @
          ''  </g>\<newline>'') L) @
        ''</svg>\<newline>'')\<close>
    and n: "\<forall>n. str_nat n \<noteq> [] \<and> set (str_nat n) \<subseteq> set ''0123456789'' \<and>
        dec_value (str_nat n) = n \<and> (n \<noteq> 0 \<longrightarrow> hd (str_nat n) \<noteq> CHR ''0'')"
    and d: "distinct (map fst L)"
    and s: "sorted_wrt scan_before (map (\<lambda>(k, rects). hd rects) L)"
    and a: "\<forall>(k, rects) \<in> set L.
        sorted_wrt scan_before rects \<and>
        (case hd rects of (x0, y0, rw, rh) \<Rightarrow> first_pixel img_mix k x0 y0)"
    by blast
  with extract_mix have L: "L = layers_mix" by simp
  from p [unfolded L, folded write_svg_text] have "png2svg img_mix = Inr doc_mix"
    by (simp only: write_svg_mix)
  then have doc: \<open>png2svg img_mix = Inr
     (''<svg xmlns="http://www.w3.org/2000/svg" viewBox="0 0 4 2" shape-rendering="crispEdges">\<newline>'' @
      ''  <g fill="#ff0000">\<newline>'' @
      ''    <rect x="0" y="0" width="2" height="1"/>\<newline>'' @
      ''    <rect x="3" y="1" width="1" height="1"/>\<newline>'' @
      ''  </g>\<newline>'' @
      ''  <g fill="#0000ff">\<newline>'' @
      ''    <rect x="3" y="0" width="1" height="1"/>\<newline>'' @
      ''    <rect x="1" y="1" width="2" height="1"/>\<newline>'' @
      ''  </g>\<newline>'' @
      ''</svg>\<newline>'')\<close>
    unfolding doc_mix_def .
  have t: "str_nat 1203 = ''1203''" by code_simp
  from n have v: "dec_value (str_nat 1203) = 1203" by blast
  have m: "(''#0000ff'', [(3, 0, 1, 1), (1, 1, 2, 1)]) \<in> set layers_mix"
    by (simp add: layers_mix_def)
  note F = a [unfolded L, rule_format, OF m, unfolded prod.case list.sel]
  from F have f1: "sorted_wrt scan_before [(3, 0, 1, 1), (1, 1, 2, 1)]"
    and f2: "first_pixel img_mix ''#0000ff'' 3 0"
    by blast+
  from extract_mix doc t v m d [unfolded L] s [unfolded L] f1 f2 show ?thesis by (intro conjI)
qed

text \<open>
  C5. For every image of W columns and H rows in which every pixel of the grid has
  alpha 0, the layer mapping is empty and the document is the root element with the view
  box \<open>0 0 W H\<close>, followed at once by the closing tag: no group and no \<open>rect\<close> element.
  The size is declared by the view box only. The source writes no \<open>width\<close> and no
  \<open>height\<close> attribute on the root element, so the document does not declare
  \<open>width=W\<close> and \<open>height=H\<close>: on the transparent image of twelve columns and three rows
  the text holds neither \<open>width=\<close> nor \<open>height=\<close>.
\<close>

theorem fully_transparent:
  \<open>(\<forall>y < height img. \<forall>x < width img. alpha (data img x y) = 0) \<Longrightarrow>
   extract_runs img = Inr [] \<and>
   png2svg img = Inr
     (''<svg xmlns="http://www.w3.org/2000/svg" viewBox="0 0 '' @ str_nat (width img) @ '' '' @
      str_nat (height img) @ ''" shape-rendering="crispEdges">\<newline></svg>\<newline>'')\<close>
proof -
  assume "\<forall>y < height img. \<forall>x < width img. alpha (data img x y) = 0"
  then have e: "extract_runs img = Inr []" by (rule extract_runs_transparent)
  from png2svg_extract [OF e] e show ?thesis by (simp add: write_svg_def)
qed

theorem fully_transparent_witness:
  \<open>extract_runs img_clear = Inr [] \<and>
   png2svg img_clear = Inr
     (''<svg xmlns="http://www.w3.org/2000/svg" viewBox="0 0 12 3" shape-rendering="crispEdges">\<newline>'' @
      ''</svg>\<newline>'')\<close>
proof -
  have h: "\<forall>y < height img_clear. \<forall>x < width img_clear. alpha (data img_clear x y) = 0"
    by (simp add: img_clear_def alpha_def)
  have w: "str_nat (width img_clear) = ''12''" and h': "str_nat (height img_clear) = ''3''"
    by code_simp+
  from fully_transparent [OF h] show ?thesis unfolding w h' by simp
qed

theorem fully_transparent_counterexample:
  "all_transparent img_clear \<and> png2svg img_clear = Inr doc_clear \<and>
   \<not> occurs_in ''width='' doc_clear \<and> \<not> occurs_in ''height='' doc_clear"
  using all_transparent_clear png2svg_clear no_width_height by simp



text \<open>
  C8. Determinism. The conversion is a function of the loaded image that always returns
  a document, and the document depends on the pixel grid alone: two images of the same
  size that agree on every pixel of the grid give the same text, byte for byte. The dict
  of the source iterates in insertion order, which the association list of the model
  keeps.
\<close>

theorem deterministic:
  "width a = width b \<Longrightarrow> height a = height b \<Longrightarrow>
   (\<forall>y < height a. \<forall>x < width a. data a x y = data b x y) \<Longrightarrow>
   png2svg a = png2svg b \<and> (\<exists>doc. png2svg a = Inr doc)"
proof -
  assume "width a = width b" "height a = height b"
    "\<forall>y < height a. \<forall>x < width a. data a x y = data b x y"
  then have "alike a b" by (simp add: alike_def)
  then have "png2svg a = png2svg b" by (rule png2svg_alike)
  with png2svg_total [of a] show ?thesis by blast
qed

theorem deterministic_witness:
  "data img_mix 7 7 \<noteq> data img_mix_padded 7 7 \<and>
   png2svg img_mix = png2svg img_mix_padded \<and> (\<exists>doc. png2svg img_mix = Inr doc)"
proof -
  have 1: "width img_mix = width img_mix_padded" and 2: "height img_mix = height img_mix_padded"
    by (simp_all add: img_mix_def img_mix_padded_def)
  have 3: "\<forall>y < height img_mix. \<forall>x < width img_mix. data img_mix x y = data img_mix_padded x y"
    by (simp add: img_mix_padded_def) (simp add: img_mix_def)
  have "data img_mix 7 7 \<noteq> data img_mix_padded 7 7"
    by (simp add: img_mix_def img_mix_padded_def)
  with deterministic [OF 1 2 3] show ?thesis by blast
qed

end
